theory Spec2Isabelle
  imports Complex_Main "HOL-Library.Word" "HOL-Library.Product_Lexorder"
    "HOL-Library.Signed_Division"
begin

section \<open>Common data\<close>

text \<open>
  Fixed-width integers of the source are words: \<open>uint8_t\<close>, \<open>uint32_t\<close>,
  \<open>uint64_t\<close> and \<open>size_t\<close> wrap around; \<open>int64_t\<close> is a 64-bit word read in
  two's complement, so that the sentinel \<open>-1\<close> is the word of all ones.
\<close>

type_synonym byte = "8 word"
type_synonym u32 = "32 word"
type_synonym u64 = "64 word"
type_synonym i64 = "64 word"

text \<open>
  What an operation of the source can end in besides a normal return:
  the two \<open>std::runtime_error\<close>s thrown by \<open>MatrixSlab\<close>, the \<open>std::length_error\<close> of a
  \<open>std::vector\<close> asked to grow beyond \<open>max_size()\<close>, and undefined behaviour: an
  access outside an array, a device buffer or a mapping (a bus error or segmentation
  fault on the machine) and the overflow of a signed \<open>int\<close> operation. A conversion to
  \<open>int\<close> of a value that does not fit is not an error: it wraps.
\<close>

datatype error =
  mmap_failed | ftruncate_failed | length_error | undefined_behaviour

text \<open>Little-endian object representation of an integer in \<open>k\<close> bytes, and back.\<close>

fun le_bytes :: "nat \<Rightarrow> nat \<Rightarrow> byte list" where
  "le_bytes 0 n = []"
| "le_bytes (Suc k) n = of_nat (n mod 256) # le_bytes k (n div 256)"

fun le_nat :: "byte list \<Rightarrow> nat" where
  "le_nat [] = 0"
| "le_nat (b # bs) = unat b + 256 * le_nat bs"

definition bytes_of_u64 :: "u64 \<Rightarrow> byte list" where
  "bytes_of_u64 w = le_bytes 8 (unat w)"

definition u64_of_bytes :: "byte list \<Rightarrow> u64" where
  "u64_of_bytes bs = of_nat (le_nat bs)"

definition bytes_of_u32 :: "u32 \<Rightarrow> byte list" where
  "bytes_of_u32 w = le_bytes 4 (unat w)"

definition u32_of_bytes :: "byte list \<Rightarrow> u32" where
  "u32_of_bytes bs = of_nat (le_nat bs)"

text \<open>
  Memory as a list of bytes: \<open>peek\<close> reads \<open>n\<close> bytes at an offset, \<open>poke\<close> overwrites
  the bytes at an offset (both used only inside the region).
\<close>

definition peek :: "nat \<Rightarrow> nat \<Rightarrow> byte list \<Rightarrow> byte list" where
  "peek off n m = take n (drop off m)"

definition poke :: "nat \<Rightarrow> byte list \<Rightarrow> byte list \<Rightarrow> byte list" where
  "poke off bs m = take off m @ bs @ drop (off + length bs) m"

section \<open>IdSlab (slab.h)\<close>

text \<open>
  \<open>enum OpCode : uint8_t { OP_INSERT = 1, OP_DELETE = 2 }\<close>. The replay casts any
  byte read from the file to \<open>OpCode\<close>, so the model keeps the byte.
\<close>

definition OP_INSERT :: byte where "OP_INSERT = 1"
definition OP_DELETE :: byte where "OP_DELETE = 2"

text \<open>
  The members of \<open>class IdSlab\<close>. \<open>logfile\<close> is the content of the file behind the
  stream, which is opened in append mode: every write goes to its end.
  Writes and flushes are taken to succeed.
\<close>

record IdSlab =
  user_auto :: "u64 \<rightharpoonup> u64"
  auto_row :: "i64 list"
  logfile :: "byte list"
  auto_id :: u64

text \<open>
  \<open>std::vector<int64_t>::max_size()\<close>: with 8-byte elements and a 64-bit
  \<open>ptrdiff_t\<close> no vector holds more than \<open>2^60 - 1\<close> elements; \<open>resize\<close> and
  \<open>push_back\<close> beyond it throw \<open>std::length_error\<close>. (A \<open>std::bad_alloc\<close> at a smaller
  size depends on the machine and is not modelled.)
\<close>

definition vector_max_size :: nat where
  "vector_max_size = 2 ^ 60 - 1"

definition vector_resize :: "i64 list \<Rightarrow> nat \<Rightarrow> i64 \<Rightarrow> error + i64 list" where
  "vector_resize xs n v =
     (if vector_max_size < n then Inl length_error
      else Inr (take n xs @ replicate (n - length xs) v))"

definition vector_push_back :: "i64 list \<Rightarrow> i64 \<Rightarrow> error + i64 list" where
  "vector_push_back xs v =
     (if vector_max_size \<le> length xs then Inl length_error else Inr (xs @ [v]))"

text \<open>
  The reading side of the \<open>std::fstream\<close>: the bytes not yet read and the state of
  the stream (\<open>good\<close> is false once failbit or eofbit is set).
  \<open>stream_read n buf st\<close> is \<open>logfile.read(p, n)\<close> where \<open>buf\<close> is the current content of
  the \<open>n\<close> bytes at \<open>p\<close>: on a stream that is not good it does nothing; otherwise it
  stores the bytes it can extract at the front of the buffer, and fails (eofbit and
  failbit) when they are fewer than \<open>n\<close>, leaving the rest of the buffer as it was.
\<close>

record istream =
  unread :: "byte list"
  good :: bool

definition stream_read :: "nat \<Rightarrow> byte list \<Rightarrow> istream \<Rightarrow> byte list \<times> istream" where
  "stream_read n buf st =
     (if \<not> good st then (buf, st)
      else let got = take n (unread st)
           in (got @ drop (length got) buf,
               \<lparr>unread = drop n (unread st), good = (length got = n)\<rparr>))"

text \<open>
  The four locals of \<open>replay_log\<close>. They are declared without initialiser, so their
  values before the first read are indeterminate: the replay takes them as an argument.
\<close>

record replay_locals =
  op_val :: byte
  user_id :: u64
  read_aid :: u64
  row_index :: i64

text \<open>
  One evaluation of the loop condition \<open>logfile.read(&op_val, 1)\<close> and, when it
  holds, the three reads that open the loop body. None of the three is checked by the
  source. The result is whether the body is entered, the locals and the stream.
\<close>

definition read_record :: "replay_locals \<Rightarrow> istream \<Rightarrow> bool \<times> replay_locals \<times> istream" where
  "read_record l st =
     (let (b0, st0) = stream_read 1 [op_val l] st in
      if \<not> good st0 then (False, l\<lparr>op_val := hd b0\<rparr>, st0)
      else
        let (b1, st1) = stream_read 8 (bytes_of_u64 (user_id l)) st0;
            (b2, st2) = stream_read 8 (bytes_of_u64 (read_aid l)) st1;
            (b3, st3) = stream_read 8 (bytes_of_u64 (row_index l)) st2
        in (True,
            \<lparr>op_val = hd b0, user_id = u64_of_bytes b1, read_aid = u64_of_bytes b2,
             row_index = u64_of_bytes b3\<rparr>,
            st3))"

text \<open>
  The rest of the loop body: the dispatch on \<open>op\<close>. \<open>read_aid + 1\<close> is computed in
  \<open>uint64_t\<close>; for \<open>read_aid = 2^64 - 1\<close> the vector is resized to 0 and the
  assignment \<open>auto_row[read_aid]\<close> is out of bounds.
\<close>

definition apply_record :: "replay_locals \<Rightarrow> IdSlab \<Rightarrow> error + IdSlab" where
  "apply_record l s =
     (if op_val l = OP_INSERT then
        (case (if length (auto_row s) \<le> unat (read_aid l)
               then vector_resize (auto_row s) (unat (read_aid l + 1)) (- 1)
               else Inr (auto_row s)) of
           Inl e \<Rightarrow> Inl e
         | Inr ar \<Rightarrow>
             if length ar \<le> unat (read_aid l) then Inl undefined_behaviour
             else Inr (s\<lparr>user_auto := (user_auto s)(user_id l \<mapsto> read_aid l),
                        auto_row := ar[unat (read_aid l) := row_index l],
                        auto_id := (if auto_id s \<le> read_aid l then read_aid l + 1
                                    else auto_id s)\<rparr>))
      else if op_val l = OP_DELETE then
        Inr (s\<lparr>user_auto := (user_auto s)(user_id l := None),
                auto_row := (if unat (read_aid l) < length (auto_row s)
                             then (auto_row s)[unat (read_aid l) := - 1]
                             else auto_row s)\<rparr>)
      else Inr s)"

text \<open>The \<open>while\<close> loop of \<open>replay_log\<close>.\<close>

function replay_loop :: "replay_locals \<Rightarrow> istream \<Rightarrow> IdSlab \<Rightarrow> error + IdSlab" where
  "replay_loop l st s =
     (case read_record l st of
        (False, l', st') \<Rightarrow> Inr s
      | (True, l', st') \<Rightarrow>
          (case apply_record l' s of
             Inl e \<Rightarrow> Inl e
           | Inr s' \<Rightarrow> replay_loop l' st' s'))"
  by pat_completeness auto
termination
proof (relation "measure (\<lambda>(l, st, s). length (unread st))")
  show "wf (measure (\<lambda>(l, st, s). length (unread st)))" by simp
next
  fix l :: replay_locals and st :: istream and s s' :: IdSlab
    and x :: bool and y l' st'
  assume r: "(x, y) = read_record l st" "x = True" "(l', st') = y"
  have le: "\<And>n buf t. length (unread (snd (stream_read n buf t))) \<le> length (unread t)"
    by (simp add: stream_read_def Let_def)
  obtain b0 st0 where s0: "stream_read 1 [op_val l] st = (b0, st0)" by force
  have g: "good st0"
    using r s0 by (cases "good st0") (auto simp: read_record_def Let_def)
  have lt: "length (unread st0) < length (unread st)"
    using s0 g by (cases "unread st") (auto simp: stream_read_def Let_def split: if_splits)
  obtain b1 st1 where s1: "stream_read 8 (bytes_of_u64 (user_id l)) st0 = (b1, st1)" by force
  obtain b2 st2 where s2: "stream_read 8 (bytes_of_u64 (read_aid l)) st1 = (b2, st2)" by force
  obtain b3 st3 where s3: "stream_read 8 (bytes_of_u64 (row_index l)) st2 = (b3, st3)" by force
  have "st' = st3" using r s0 s1 s2 s3 g by (simp add: read_record_def)
  moreover have "length (unread st3) \<le> length (unread st0)"
    using le [of 8 "bytes_of_u64 (user_id l)" st0] le [of 8 "bytes_of_u64 (read_aid l)" st1]
      le [of 8 "bytes_of_u64 (row_index l)" st2] s1 s2 s3 by simp
  ultimately show "((l', st', s'), (l, st, s)) \<in> measure (\<lambda>(l, st, s). length (unread st))"
    using lt by simp
qed

text \<open>
  \<open>replay_log\<close>: rewind (\<open>clear\<close>, \<open>seekg(0)\<close>), run the loop, then raise \<open>auto_id\<close> to
  the size of \<open>auto_row\<close>. \<open>l0\<close> holds the indeterminate initial values of the locals.
\<close>

definition replay_log :: "replay_locals \<Rightarrow> IdSlab \<Rightarrow> error + IdSlab" where
  "replay_log l0 s =
     (case replay_loop l0 \<lparr>unread = logfile s, good = True\<rparr> s of
        Inl e \<Rightarrow> Inl e
      | Inr s' \<Rightarrow>
          Inr (if unat (auto_id s') < length (auto_row s')
               then s'\<lparr>auto_id := of_nat (length (auto_row s'))\<rparr> else s'))"

text \<open>
  The constructor: the file is opened, created empty when it does not exist
  (\<open>None\<close>), and replayed into the freshly initialised members.
\<close>

definition IdSlab_ctor :: "replay_locals \<Rightarrow> byte list option \<Rightarrow> error + IdSlab" where
  "IdSlab_ctor l0 file =
     replay_log l0 \<lparr>user_auto = Map.empty, auto_row = [],
                    logfile = (case file of None \<Rightarrow> [] | Some bs \<Rightarrow> bs), auto_id = 0\<rparr>"

text \<open>\<open>write_log_entry\<close>: 1 + 8 + 8 + 8 bytes appended to the file.\<close>

definition write_log_entry :: "byte \<Rightarrow> u64 \<Rightarrow> u64 \<Rightarrow> i64 \<Rightarrow> byte list \<Rightarrow> byte list" where
  "write_log_entry opc uid aid row f =
     f @ [opc] @ bytes_of_u64 uid @ bytes_of_u64 aid @ bytes_of_u64 row"

text \<open>\<open>insert\<close> returns \<open>std::optional<uint64_t>\<close> and the updated object.\<close>

definition IdSlab_insert :: "IdSlab \<Rightarrow> u64 \<Rightarrow> i64 \<Rightarrow> error + (u64 option \<times> IdSlab)" where
  "IdSlab_insert s uid row =
     (if user_auto s uid \<noteq> None then Inr (None, s)
      else
        let id = auto_id s in
        case vector_push_back (auto_row s) row of
          Inl e \<Rightarrow> Inl e
        | Inr ar \<Rightarrow>
            Inr (Some id,
                 s\<lparr>auto_id := id + 1,
                   user_auto := (user_auto s)(uid \<mapsto> id),
                   auto_row := ar,
                   logfile := write_log_entry OP_INSERT uid id row (logfile s)\<rparr>))"

definition IdSlab_remove :: "IdSlab \<Rightarrow> u64 \<Rightarrow> IdSlab" where
  "IdSlab_remove s uid =
     (case user_auto s uid of
        None \<Rightarrow> s
      | Some aid \<Rightarrow>
          s\<lparr>user_auto := (user_auto s)(uid := None),
            auto_row := (if unat aid < length (auto_row s)
                         then (auto_row s)[unat aid := - 1] else auto_row s),
            logfile := write_log_entry OP_DELETE uid aid (- 1) (logfile s)\<rparr>)"

definition get_row :: "IdSlab \<Rightarrow> u64 \<Rightarrow> i64" where
  "get_row s aid = (if length (auto_row s) \<le> unat aid then - 1 else auto_row s ! unat aid)"

definition get_row_from_user :: "IdSlab \<Rightarrow> u64 \<Rightarrow> i64" where
  "get_row_from_user s uid =
     (case user_auto s uid of None \<Rightarrow> - 1 | Some aid \<Rightarrow> get_row s aid)"

text \<open>
  The states an \<open>IdSlab\<close> object can be in: constructed on any file (or none) with any
  initial content of the locals, then changed by \<open>insert\<close> and \<open>remove\<close>.
\<close>

inductive IdSlab_reachable :: "IdSlab \<Rightarrow> bool" where
  constructed: "IdSlab_ctor l0 file = Inr s \<Longrightarrow> IdSlab_reachable s"
| inserted: "IdSlab_reachable s \<Longrightarrow> IdSlab_insert s uid row = Inr (res, s') \<Longrightarrow>
     IdSlab_reachable s'"
| removed: "IdSlab_reachable s \<Longrightarrow> IdSlab_reachable (IdSlab_remove s uid)"

section \<open>MatrixSlab (slab.h)\<close>

text \<open>
  The object is the file behind \<open>fd\<close> and the shared mapping of it: \<open>file_size\<close> is the
  length given to \<open>mmap\<close>, \<open>header\<close> points at the start of the mapping and \<open>data_region\<close>
  128 bytes further. A mapping is made of whole pages. The bytes of the last page that
  lie past the end of the file (\<open>page_tail\<close>) are zero when the file is mapped, can be
  read and written, and are not written to the file; the memory seen through the
  mapping is the file followed by them. A \<open>float\<close> is its four bytes, a 32-bit word.
\<close>

record MatrixSlab =
  file_content :: "byte list"
  page_tail :: "byte list"
  file_size :: nat

definition INITIAL_CAPACITY :: u64 where
  "INITIAL_CAPACITY = 1000"

definition PAGE_SIZE :: nat where
  "PAGE_SIZE = 4096"

definition page_round :: "nat \<Rightarrow> nat" where
  "page_round n = (n + PAGE_SIZE - 1) div PAGE_SIZE * PAGE_SIZE"

definition memory :: "MatrixSlab \<Rightarrow> byte list" where
  "memory s = file_content s @ page_tail s"

definition write_memory :: "MatrixSlab \<Rightarrow> nat \<Rightarrow> byte list \<Rightarrow> MatrixSlab" where
  "write_memory s off bs =
     (let m = poke off bs (memory s); n = length (file_content s)
      in s\<lparr>file_content := take n m, page_tail := drop n m\<rparr>)"

text \<open>
  \<open>struct SlabHeader\<close>: magic at offset 0, version at 4, count at 8, dim at 16,
  capacity at 24, then 96 bytes of padding: 128 bytes.
\<close>

definition sizeof_SlabHeader :: nat where
  "sizeof_SlabHeader = 128"

definition hdr_magic :: "MatrixSlab \<Rightarrow> u32" where
  "hdr_magic s = u32_of_bytes (peek 0 4 (memory s))"

definition hdr_version :: "MatrixSlab \<Rightarrow> u32" where
  "hdr_version s = u32_of_bytes (peek 4 4 (memory s))"

definition hdr_count :: "MatrixSlab \<Rightarrow> u64" where
  "hdr_count s = u64_of_bytes (peek 8 8 (memory s))"

definition hdr_dim :: "MatrixSlab \<Rightarrow> u64" where
  "hdr_dim s = u64_of_bytes (peek 16 8 (memory s))"

definition hdr_capacity :: "MatrixSlab \<Rightarrow> u64" where
  "hdr_capacity s = u64_of_bytes (peek 24 8 (memory s))"

definition set_magic :: "MatrixSlab \<Rightarrow> u32 \<Rightarrow> MatrixSlab" where
  "set_magic s v = write_memory s 0 (bytes_of_u32 v)"

definition set_count :: "MatrixSlab \<Rightarrow> u64 \<Rightarrow> MatrixSlab" where
  "set_count s v = write_memory s 8 (bytes_of_u64 v)"

definition set_dim :: "MatrixSlab \<Rightarrow> u64 \<Rightarrow> MatrixSlab" where
  "set_dim s v = write_memory s 16 (bytes_of_u64 v)"

definition set_capacity :: "MatrixSlab \<Rightarrow> u64 \<Rightarrow> MatrixSlab" where
  "set_capacity s v = write_memory s 24 (bytes_of_u64 v)"

text \<open>
  The bytes that can be accessed through the mapping: those of the pages that are both
  mapped and backed by the file. An access beyond them is undefined behaviour (a
  segmentation fault or bus error on the machine).
\<close>

definition mapped_len :: "MatrixSlab \<Rightarrow> nat" where
  "mapped_len s = min (page_round (file_size s)) (length (memory s))"

text \<open>
  \<open>ftruncate(fd, n)\<close>: \<open>n\<close> is a \<open>size_t\<close> converted to the signed \<open>off_t\<close>, and a negative
  length is refused; otherwise the file is cut or extended with zero bytes.
  \<open>mmap\<close> refuses the length 0 and a length of \<open>2^63\<close> bytes or more, which no address
  space holds. \<open>map_file\<close> unmaps the old mapping, so what was written past the end of
  the file is lost, and maps the file anew. Failures that depend on the machine (no space,
  a smaller address space) are not modelled.
\<close>

definition ftruncate :: "byte list \<Rightarrow> nat \<Rightarrow> error + byte list" where
  "ftruncate f n =
     (if 2 ^ 63 \<le> n then Inl ftruncate_failed
      else Inr (take n f @ replicate (n - length f) 0))"

definition map_file :: "MatrixSlab \<Rightarrow> nat \<Rightarrow> error + MatrixSlab" where
  "map_file s file_size_bytes =
     (if file_size_bytes = 0 \<or> 2 ^ 63 \<le> file_size_bytes then Inl mmap_failed
      else Inr (s\<lparr>file_size := file_size_bytes,
                  page_tail := replicate (page_round (length (file_content s))
                                           - length (file_content s)) 0\<rparr>))"

definition grow_file :: "MatrixSlab \<Rightarrow> u64 \<Rightarrow> error + MatrixSlab" where
  "grow_file s new_capacity =
     (let new_capacity_bytes = unat (128 + new_capacity * 4 * hdr_dim s) in
      case ftruncate (file_content s) new_capacity_bytes of
        Inl e \<Rightarrow> Inl ftruncate_failed
      | Inr f \<Rightarrow>
          (case map_file (s\<lparr>file_content := f\<rparr>) new_capacity_bytes of
             Inl e \<Rightarrow> Inl e
           | Inr s' \<Rightarrow> Inr (set_capacity s' new_capacity)))"

text \<open>
  The constructor. \<open>None\<close> is a path with no file: the file is created empty by
  \<open>open\<close>, sized (the result of this \<open>ftruncate\<close> is not checked), mapped, and its header
  written; the \<open>version\<close> field is not written. The size is computed in 64 bits and may
  wrap. An existing file is mapped at its length and nothing of it is read.
\<close>

definition MatrixSlab_ctor :: "byte list option \<Rightarrow> u64 \<Rightarrow> error + MatrixSlab" where
  "MatrixSlab_ctor existing dimension =
     (case existing of
        None \<Rightarrow>
          (let size = unat (128 + dimension * 4 * INITIAL_CAPACITY);
               f = (case ftruncate [] size of Inl e \<Rightarrow> [] | Inr f' \<Rightarrow> f')
           in case map_file \<lparr>file_content = f, page_tail = [], file_size = 0\<rparr> size of
                Inl e \<Rightarrow> Inl e
              | Inr s \<Rightarrow>
                  Inr (set_capacity
                         (set_dim (set_count (set_magic s 0x26872687) 0) dimension)
                         INITIAL_CAPACITY))
      | Some f \<Rightarrow> map_file \<lparr>file_content = f, page_tail = [], file_size = 0\<rparr> (length f))"

text \<open>
  \<open>add_vector\<close>, in two parts: the growth when the slab is full, and
  \<open>store_vector\<close> for the three statements that follow it (the offset, the \<open>memcpy\<close>
  and \<open>header->count++\<close>). The argument is the array \<open>vector_Data\<close> points to.
  \<open>offset\<close>, the byte count of the \<open>memcpy\<close> and the address \<open>&data_region[offset]\<close>,
  which lies \<open>128 + 4 * offset\<close> bytes into the mapping, are computed in 64 bits. The
  \<open>memcpy\<close> reads its bytes from the array and writes them through the mapping; one of no
  bytes touches nothing. Reading past the array or writing past the mapped pages is
  undefined behaviour. The header lies in the first page of every mapping.
\<close>

definition store_vector :: "MatrixSlab \<Rightarrow> u32 list \<Rightarrow> error + MatrixSlab" where
  "store_vector s vector_Data =
     (let offset = hdr_count s * hdr_dim s;
          n = unat (hdr_dim s * 4);
          dst = unat (128 + 4 * offset);
          src = concat (map bytes_of_u32 vector_Data)
      in if n \<noteq> 0 \<and> (length src < n \<or> mapped_len s < dst + n) then Inl undefined_behaviour
         else Inr (set_count (write_memory s dst (take n src)) (hdr_count s + 1)))"

definition add_vector :: "MatrixSlab \<Rightarrow> u32 list \<Rightarrow> error + MatrixSlab" where
  "add_vector s vector_Data =
     (case (if hdr_capacity s \<le> hdr_count s then grow_file s (hdr_capacity s * 2)
            else Inr s) of
        Inl e \<Rightarrow> Inl e
      | Inr s1 \<Rightarrow> store_vector s1 vector_Data)"

text \<open>
  Row \<open>r\<close> of the data region, as bytes and as floats: what a reader copies from
  \<open>get_data_ptr() + r * dim\<close>.
\<close>

fun floats_of_bytes :: "byte list \<Rightarrow> u32 list" where
  "floats_of_bytes (a # b # c # d # bs) = u32_of_bytes [a, b, c, d] # floats_of_bytes bs"
| "floats_of_bytes bs = []"

definition row_bytes :: "MatrixSlab \<Rightarrow> nat \<Rightarrow> byte list" where
  "row_bytes s r =
     peek (sizeof_SlabHeader + 4 * (r * unat (hdr_dim s))) (4 * unat (hdr_dim s)) (memory s)"

definition get_row_data :: "MatrixSlab \<Rightarrow> nat \<Rightarrow> u32 list" where
  "get_row_data s r = floats_of_bytes (row_bytes s r)"

text \<open>
  The states of a slab created as a new file with dimension \<open>dimension\<close> and then
  appended to, each time with an array of \<open>dim\<close> floats (an array in memory has fewer
  than \<open>2^64\<close> bytes).
\<close>

inductive slab_reachable :: "u64 \<Rightarrow> MatrixSlab \<Rightarrow> bool" where
  created: "MatrixSlab_ctor None dimension = Inr s \<Longrightarrow> slab_reachable dimension s"
| appended: "slab_reachable dimension s \<Longrightarrow> length v = unat (hdr_dim s) \<Longrightarrow>
     4 * length v < 2 ^ 64 \<Longrightarrow> add_vector s v = Inr s' \<Longrightarrow> slab_reachable dimension s'"

text \<open>
  A slab between calls. The mapping is that of the whole file, which is not empty, and
  one of three holds: the dimension is 0 and the file holds the header; or the file
  holds the header and \<open>capacity\<close> rows, of which \<open>count\<close> are in use (what creation and
  growth leave); or the file is too short for \<open>capacity\<close> rows (a creation whose size
  wrapped) and the \<open>count\<close> rows in use are inside the mapped pages, and then the slab is
  not full.
\<close>

definition mapping_inv :: "MatrixSlab \<Rightarrow> bool" where
  "mapping_inv s \<longleftrightarrow>
     file_size s = length (file_content s) \<and> 0 < file_size s \<and> file_size s < 2 ^ 63 \<and>
     length (page_tail s) = page_round (file_size s) - file_size s"

definition holds_capacity :: "MatrixSlab \<Rightarrow> bool" where
  "holds_capacity s \<longleftrightarrow>
     sizeof_SlabHeader + 4 * (unat (hdr_capacity s) * unat (hdr_dim s)) \<le> file_size s \<and>
     (hdr_dim s = 0 \<or> (hdr_count s \<le> hdr_capacity s \<and> 0 < hdr_capacity s))"

definition slab_inv :: "MatrixSlab \<Rightarrow> bool" where
  "slab_inv s \<longleftrightarrow>
     mapping_inv s \<and>
     (holds_capacity s \<or>
      (hdr_count s < hdr_capacity s \<and>
       sizeof_SlabHeader + 4 * (unat (hdr_count s) * unat (hdr_dim s))
         \<le> page_round (file_size s) \<and>
       page_round (file_size s)
         < sizeof_SlabHeader + 4 * (unat (hdr_capacity s) * unat (hdr_dim s))))"

text \<open>
  \<open>n\<close> appends of the same array in a row, stopping at the first one that does not
  return.
\<close>

fun append_times :: "nat \<Rightarrow> u32 list \<Rightarrow> MatrixSlab \<Rightarrow> error + MatrixSlab" where
  "append_times 0 v s = Inr s"
| "append_times (Suc n) v s =
     (case append_times n v s of Inl e \<Rightarrow> Inl e | Inr s' \<Rightarrow> add_vector s' v)"

text \<open>
  The slab created with dimension 0 after \<open>n\<close> appends of the empty array, while the
  capacity has not yet wrapped: the count is \<open>n\<close> and the capacity is the least
  \<open>1000 * 2^j\<close> that is at least \<open>n\<close>.
\<close>

definition dim0_state :: "nat \<Rightarrow> MatrixSlab \<Rightarrow> bool" where
  "dim0_state n s \<longleftrightarrow>
     slab_reachable 0 s \<and> slab_inv s \<and> hdr_dim s = 0 \<and> hdr_count s = of_nat n \<and>
     (\<exists>j \<le> 54. unat (hdr_capacity s) = 1000 * 2 ^ j \<and> n \<le> 1000 * 2 ^ j \<and>
        (j = 0 \<or> 1000 * 2 ^ (j - 1) < n))"

text \<open>
  The slab created with dimension 4 after \<open>n\<close> appends, up to the first growth.
\<close>

definition dim4_state :: "nat \<Rightarrow> MatrixSlab \<Rightarrow> bool" where
  "dim4_state n s \<longleftrightarrow>
     slab_reachable 4 s \<and> slab_inv s \<and> holds_capacity s \<and> hdr_dim s = 4 \<and>
     hdr_count s = of_nat n \<and> hdr_capacity s = 1000"

section \<open>GpuIndex (gpu.h)\<close>

text \<open>
  \<open>float\<close> arithmetic is modelled exactly, over the reals. A device buffer is the list
  of its cells; the \<open>size_t\<close> members are natural numbers (the buffers exist, so their
  sizes are representable). \<open>struct SearchResult { uint64_t id; float score; }\<close>.
\<close>

record SearchResult =
  result_id :: u64
  score :: real

record GpuIndex =
  d_db :: "real list"
  d_db_norms :: "real list"
  d_queries :: "real list"
  d_q_norms :: "real list"
  d_results :: "real list"
  max_vectors :: nat
  dim :: nat
  current_count :: nat
  max_batch_size :: nat

definition INT_MAX :: nat where
  "INT_MAX = 2147483647"

text \<open>
  The conversion of a \<open>size_t\<close> to \<open>int\<close> keeps the low 32 bits, and that of an \<open>int\<close> to
  \<open>size_t\<close> is taken modulo \<open>2^64\<close>: the source goes on with the converted value, and so
  does the model. The result of an \<open>int\<close> addition or multiplication that is not an
  \<open>int\<close> is undefined behaviour.
\<close>

definition int_of_size_t :: "nat \<Rightarrow> int" where
  "int_of_size_t n = sint (word_of_nat n :: 32 word)"

definition size_t_of_int :: "int \<Rightarrow> nat" where
  "size_t_of_int i = nat (i mod 2 ^ 64)"

definition int_fits :: "int \<Rightarrow> bool" where
  "int_fits i \<longleftrightarrow> - 2147483648 \<le> i \<and> i \<le> 2147483647"

text \<open>
  \<open>cudaMemcpy\<close> to the device buffer \<open>dst\<close>, \<open>off\<close> cells from its start: a copy that
  does not fit the allocation is refused with an error code, which the source never
  looks at, and the buffer keeps its content.
\<close>

definition cudaMemcpy :: "real list \<Rightarrow> nat \<Rightarrow> real list \<Rightarrow> real list" where
  "cudaMemcpy dst off src =
     (if off + length src \<le> length dst
      then take off dst @ src @ drop (off + length src) dst else dst)"

text \<open>The loop \<open>sum_sq += val * val\<close> over an array, from \<open>0.0f\<close>.\<close>

definition sum_sq :: "real list \<Rightarrow> real" where
  "sum_sq xs = foldl (\<lambda>sum val. sum + val * val) 0 xs"

text \<open>
  A kernel launch \<open><<<blocks, threads>>>\<close> runs the kernel once for each thread index
  below \<open>blocks * threads\<close>; every thread of the two kernels writes one cell of its own.
  \<open>blocks\<close> is an \<open>int\<close>: with \<open>blocks = 0\<close>, or with a negative \<open>blocks\<close> (a grid of more than
  \<open>2^31 - 1\<close> blocks once converted to \<open>unsigned\<close>), the launch is refused and nothing
  runs. \<open>launch_defined\<close> says that every thread of the launch is defined.
\<close>

definition launch :: "int \<Rightarrow> nat \<Rightarrow> (nat \<Rightarrow> real list \<Rightarrow> real list) \<Rightarrow> real list \<Rightarrow> real list" where
  "launch blocks threads body mem = fold body [0..<nat blocks * threads] mem"

definition launch_defined :: "int \<Rightarrow> nat \<Rightarrow> (nat \<Rightarrow> bool) \<Rightarrow> bool" where
  "launch_defined blocks threads thread_defined \<longleftrightarrow>
     list_all thread_defined [0..<nat blocks * threads]"

text \<open>
  \<open>compute_norms_kernel(data, norms, rows, cols)\<close> for the thread \<open>idx\<close>. With
  \<open>cols \<le> 0\<close> the loop does not run and the sum is 0. The thread is defined when
  \<open>idx * cols\<close> is an \<open>int\<close> and the cells it reads and the cell it writes exist.
\<close>

definition compute_norms_kernel :: "real list \<Rightarrow> int \<Rightarrow> int \<Rightarrow> nat \<Rightarrow> real list \<Rightarrow> real list" where
  "compute_norms_kernel data rows cols idx norms =
     (if rows \<le> int idx then norms
      else norms[idx := sum_sq (take (nat cols) (drop (idx * nat cols) data))])"

definition norms_thread_defined :: "real list \<Rightarrow> real list \<Rightarrow> int \<Rightarrow> int \<Rightarrow> nat \<Rightarrow> bool" where
  "norms_thread_defined data norms rows cols idx \<longleftrightarrow>
     rows \<le> int idx \<or>
     (int_fits (int idx * cols) \<and> idx * nat cols + nat cols \<le> length data \<and>
      idx < length norms)"

text \<open>
  \<open>compute_l2_dist_kernel(db_norms, query_norms, d_dot_products, num_db, num_queries)\<close>
  for the thread \<open>idx\<close>; \<open>%\<close> and \<open>/\<close> on \<open>int\<close> round towards zero. The thread is defined
  when \<open>num_db * num_queries\<close> is an \<open>int\<close> and the three cells it reads exist.
\<close>

definition compute_l2_dist_kernel ::
  "real list \<Rightarrow> real list \<Rightarrow> int \<Rightarrow> int \<Rightarrow> nat \<Rightarrow> real list \<Rightarrow> real list" where
  "compute_l2_dist_kernel db_norms query_norms num_db num_queries idx d_dot_products =
     (let total = num_db * num_queries in
      if total \<le> int idx then d_dot_products
      else
        let row = int idx smod num_db; col = int idx sdiv num_db; val = d_dot_products ! idx
        in d_dot_products[idx := val + db_norms ! nat row + query_norms ! nat col])"

definition l2_thread_defined ::
  "real list \<Rightarrow> real list \<Rightarrow> real list \<Rightarrow> int \<Rightarrow> int \<Rightarrow> nat \<Rightarrow> bool" where
  "l2_thread_defined db_norms query_norms d_dot_products num_db num_queries idx \<longleftrightarrow>
     (let total = num_db * num_queries; row = int idx smod num_db; col = int idx sdiv num_db in
      int_fits total \<and>
      (total \<le> int idx \<or>
       (idx < length d_dot_products \<and> 0 \<le> row \<and> nat row < length db_norms \<and>
        0 \<le> col \<and> nat col < length query_norms)))"

text \<open>
  The constructor allocates the five buffers; \<open>fresh\<close> gives the indeterminate content
  of newly allocated device memory. Allocation is taken to succeed.
\<close>

definition GpuIndex_ctor :: "(nat \<Rightarrow> real) \<Rightarrow> nat \<Rightarrow> nat \<Rightarrow> GpuIndex" where
  "GpuIndex_ctor fresh dimension capacity =
     \<lparr>d_db = map fresh [0..<capacity * dimension],
      d_db_norms = map fresh [0..<capacity],
      d_queries = map fresh [0..<100 * dimension],
      d_q_norms = map fresh [0..<100],
      d_results = map fresh [0..<capacity * 100],
      max_vectors = capacity, dim = dimension, current_count = 0, max_batch_size = 100\<rparr>"

text \<open>\<open>add_single_vector\<close>; \<open>host_vec\<close> is the array the pointer refers to.\<close>

definition add_single_vector :: "GpuIndex \<Rightarrow> real list \<Rightarrow> error + (bool \<times> GpuIndex)" where
  "add_single_vector s host_vec =
     (if max_vectors s \<le> current_count s then Inr (False, s)
      else if length host_vec < dim s then Inl undefined_behaviour
      else
        let offset = current_count s * dim s;
            v = take (dim s) host_vec
        in Inr (True,
                s\<lparr>d_db := cudaMemcpy (d_db s) offset v,
                  d_db_norms := cudaMemcpy (d_db_norms s) (current_count s) [sum_sq v],
                  current_count := current_count s + 1\<rparr>))"

text \<open>
  \<open>load_data\<close>, given \<open>slab.get_count()\<close> and the floats at \<open>slab.get_data_ptr()\<close>.
  The source does not compare the count with \<open>max_vectors\<close>. The number of bytes to copy
  and \<open>current_count + threads - 1\<close> are computed in \<open>size_t\<close>; \<open>blocks\<close> and the two
  arguments \<open>rows\<close> and \<open>cols\<close> of the kernel are \<open>int\<close>s.
\<close>

definition load_data :: "GpuIndex \<Rightarrow> nat \<Rightarrow> real list \<Rightarrow> error + GpuIndex" where
  "load_data s slab_count slab_data =
     (let cc = slab_count;
          n = (cc * dim s * 4) mod 2 ^ 64 div 4
      in if length slab_data < n then Inl undefined_behaviour
         else
           let db = cudaMemcpy (d_db s) 0 (take n slab_data);
               threads = 256;
               blocks = int_of_size_t ((cc + threads - 1) mod 2 ^ 64 div threads);
               rows = int_of_size_t cc;
               cols = int_of_size_t (dim s)
           in if \<not> launch_defined blocks threads
                     (norms_thread_defined db (d_db_norms s) rows cols)
              then Inl undefined_behaviour
              else Inr (s\<lparr>current_count := cc, d_db := db,
                          d_db_norms := launch blocks threads (compute_norms_kernel db rows cols)
                                          (d_db_norms s)\<rparr>))"

text \<open>
  \<open>cublasSgemm(handle, CUBLAS_OP_T, CUBLAS_OP_N, m, n, k, &alpha, A, lda, B, ldb, &beta,
  C, ldc)\<close> by its contract: column-major \<open>C(i, j) = alpha * sum_l A(l, i) * B(l, j) + beta *
  C(i, j)\<close> for \<open>i < m\<close> and \<open>j < n\<close>. A negative \<open>m\<close>, \<open>n\<close> or \<open>k\<close> and leading dimensions
  below \<open>max(1, k)\<close>, \<open>max(1, k)\<close> and \<open>max(1, m)\<close> are refused with an error code and \<open>C\<close> is
  left alone. A call that is not refused reads the \<open>k\<close> by \<open>m\<close> cells of \<open>A\<close> and the \<open>k\<close> by
  \<open>n\<close> cells of \<open>B\<close> and writes the \<open>m\<close> by \<open>n\<close> cells of \<open>C\<close>.
\<close>

definition sgemm_refused :: "int \<Rightarrow> int \<Rightarrow> int \<Rightarrow> int \<Rightarrow> int \<Rightarrow> int \<Rightarrow> bool" where
  "sgemm_refused m n k lda ldb ldc \<longleftrightarrow>
     m < 0 \<or> n < 0 \<or> k < 0 \<or> lda < max 1 k \<or> ldb < max 1 k \<or> ldc < max 1 m"

definition cublasSgemm_TN ::
  "int \<Rightarrow> int \<Rightarrow> int \<Rightarrow> real \<Rightarrow> real list \<Rightarrow> int \<Rightarrow> real list \<Rightarrow> int \<Rightarrow> real \<Rightarrow> real list \<Rightarrow> int
     \<Rightarrow> real list" where
  "cublasSgemm_TN m n k alpha A lda B ldb beta C ldc =
     (if sgemm_refused m n k lda ldb ldc then C
      else map (\<lambda>idx.
                 let i = idx mod nat ldc; j = idx div nat ldc in
                 if i < nat m \<and> j < nat n
                 then alpha * (\<Sum>l\<leftarrow>[0..<nat k]. A ! (l + i * nat lda) * B ! (l + j * nat ldb))
                      + beta * C ! idx
                 else C ! idx)
             [0..<length C])"

definition sgemm_in_bounds ::
  "int \<Rightarrow> int \<Rightarrow> int \<Rightarrow> real list \<Rightarrow> int \<Rightarrow> real list \<Rightarrow> int \<Rightarrow> real list \<Rightarrow> int \<Rightarrow> bool" where
  "sgemm_in_bounds m n k A lda B ldb C ldc \<longleftrightarrow>
     sgemm_refused m n k lda ldb ldc \<or> m = 0 \<or> n = 0 \<or>
     ((k = 0 \<or> (nat (k + (m - 1) * lda) \<le> length A \<and> nat (k + (n - 1) * ldb) \<le> length B)) \<and>
      nat (m + (n - 1) * ldc) \<le> length C)"

text \<open>
  \<open>std::partial_sort(first, first + mid, last)\<close> on pairs \<open>(score, row)\<close> under
  \<open>operator<\<close> of \<open>std::pair\<close>, the lexicographic order: afterwards the first \<open>mid\<close>
  places hold the \<open>mid\<close> least elements in ascending order. The order of the others is
  unspecified and the source does not read them.
\<close>

definition partial_sort_front :: "nat \<Rightarrow> (real \<times> nat) list \<Rightarrow> (real \<times> nat) list" where
  "partial_sort_front mid xs = take mid (sort xs)"

text \<open>
  The body of the loop over the queries, for query \<open>q\<close>. The inner loop
  \<open>for (int i = 0; i < current_count; i++)\<close> reads \<open>all_scores[q * current_count + i]\<close>: it is
  defined when \<open>i\<close> stays an \<open>int\<close> and the scores of every query are inside \<open>all_scores\<close>.
\<close>

definition query_results :: "real list \<Rightarrow> nat \<Rightarrow> nat \<Rightarrow> int \<Rightarrow> SearchResult list" where
  "query_results all_scores cc q k =
     (let candidates = map (\<lambda>i. (all_scores ! (q * cc + i), i)) [0..<cc];
          safe_k = min (nat (k mod 2 ^ 64)) cc
      in map (\<lambda>(sc, i). \<lparr>result_id = of_nat i, score = sc\<rparr>)
           (partial_sort_front safe_k candidates))"

definition candidates_in_bounds :: "nat \<Rightarrow> nat \<Rightarrow> nat \<Rightarrow> bool" where
  "candidates_in_bounds cc num_queries n_scores \<longleftrightarrow>
     cc \<le> INT_MAX \<and> (cc = 0 \<or> num_queries * cc \<le> n_scores)"

text \<open>
  \<open>search\<close>, in two parts. The device part: the product \<open>-2 * X^T * Q\<close> into \<open>d_results\<close>,
  then the kernel that adds the two norms to each cell; \<open>total_pairs\<close> and \<open>blocks\<close> are
  \<open>int\<close>s. \<open>device_in_bounds\<close> says that this part is defined: the product and the kernel
  stay inside the buffers and \<open>total_pairs + threads - 1\<close> is an \<open>int\<close>. \<open>device_scores\<close> is
  what it leaves in \<open>d_results\<close>. There is no comparison of the number of queries with
  \<open>max_batch_size\<close> in the source.
\<close>

definition total_pairs :: "nat \<Rightarrow> int \<Rightarrow> int" where
  "total_pairs cc num_queries = int_of_size_t ((cc * size_t_of_int num_queries) mod 2 ^ 64)"

definition device_in_bounds :: "GpuIndex \<Rightarrow> real list \<Rightarrow> real list \<Rightarrow> int \<Rightarrow> bool" where
  "device_in_bounds s dq dqn num_queries \<longleftrightarrow>
     (let num_db = int_of_size_t (current_count s);
          cols = int_of_size_t (dim s);
          r1 = cublasSgemm_TN num_db num_queries cols (- 2) (d_db s) cols dq cols 0
                 (d_results s) num_db;
          threads = 256;
          blocks = (total_pairs (current_count s) num_queries + threads - 1) sdiv threads
      in sgemm_in_bounds num_db num_queries cols (d_db s) cols dq cols (d_results s) num_db \<and>
         int_fits (total_pairs (current_count s) num_queries + threads - 1) \<and>
         launch_defined blocks 256
           (l2_thread_defined (d_db_norms s) dqn r1 num_db num_queries))"

definition device_scores :: "GpuIndex \<Rightarrow> real list \<Rightarrow> real list \<Rightarrow> int \<Rightarrow> real list" where
  "device_scores s dq dqn num_queries =
     (let num_db = int_of_size_t (current_count s);
          cols = int_of_size_t (dim s);
          r1 = cublasSgemm_TN num_db num_queries cols (- 2) (d_db s) cols dq cols 0
                 (d_results s) num_db;
          threads = 256;
          blocks = (total_pairs (current_count s) num_queries + threads - 1) sdiv threads
      in launch blocks 256 (compute_l2_dist_kernel (d_db_norms s) dqn num_db num_queries) r1)"

text \<open>
  The host part: \<open>std::vector<float> all_scores(total_pairs)\<close> and
  \<open>final_results(num_queries)\<close> throw \<open>std::length_error\<close> for a negative \<open>int\<close>, which is a
  size beyond \<open>max_size()\<close> once converted, and so does \<open>candidates(current_count)\<close> for a
  count beyond it. The copy back from \<open>d_results\<close> is refused when it does not fit the
  buffer, and \<open>all_scores\<close> then keeps its zeros.
\<close>

definition search ::
  "GpuIndex \<Rightarrow> real list list \<Rightarrow> int \<Rightarrow> error + (SearchResult list list \<times> GpuIndex)" where
  "search s queries k =
     (let num_queries = int_of_size_t (length queries) in
      if num_queries = 0 then Inr ([], s)
      else
        let cc = current_count s;
            flat_queries = concat queries;
            host_q_norms = map sum_sq queries;
            dq = cudaMemcpy (d_queries s) 0 flat_queries;
            dqn = cudaMemcpy (d_q_norms s) 0 host_q_norms
        in if \<not> device_in_bounds s dq dqn num_queries then Inl undefined_behaviour
           else
             let r2 = device_scores s dq dqn num_queries;
                 tp = total_pairs cc num_queries
             in if tp < 0 then Inl length_error
                else
                  let all_scores = (if nat tp \<le> length r2 then take (nat tp) r2
                                    else replicate (nat tp) 0)
                  in if num_queries < 0 then Inl length_error
                     else if vector_max_size < cc then Inl length_error
                     else if \<not> candidates_in_bounds cc (nat num_queries) (length all_scores)
                     then Inl undefined_behaviour
                     else Inr (map (\<lambda>q. query_results all_scores cc q k) [0..<nat num_queries],
                               s\<lparr>d_queries := dq, d_q_norms := dqn, d_results := r2\<rparr>))"

text \<open>
  The state of a \<open>GpuIndex\<close> between calls: the buffers have the sizes the constructor
  allocated; a count that is an \<open>int\<close> is at most \<open>max_vectors\<close>, and if \<open>dim\<close> is an \<open>int\<close>
  as well, \<open>d_db_norms\<close> holds the squared norm of each stored row.
\<close>

definition db_row :: "GpuIndex \<Rightarrow> nat \<Rightarrow> real list" where
  "db_row s r = take (dim s) (drop (r * dim s) (d_db s))"

definition GpuIndex_inv :: "GpuIndex \<Rightarrow> bool" where
  "GpuIndex_inv s \<longleftrightarrow>
     length (d_db s) = max_vectors s * dim s \<and>
     length (d_db_norms s) = max_vectors s \<and>
     length (d_queries s) = max_batch_size s * dim s \<and>
     length (d_q_norms s) = max_batch_size s \<and>
     length (d_results s) = max_vectors s * max_batch_size s \<and>
     max_batch_size s = 100 \<and>
     (current_count s \<le> INT_MAX \<longrightarrow>
        current_count s \<le> max_vectors s \<and>
        (dim s \<le> INT_MAX \<longrightarrow>
           list_all (\<lambda>r. d_db_norms s ! r = sum_sq (db_row s r)) [0..<current_count s]))"

text \<open>
  The states a \<open>GpuIndex\<close> object can be in: constructed, then changed by
  \<open>add_single_vector\<close>, \<open>load_data\<close> and \<open>search\<close> calls that return.
\<close>

inductive GpuIndex_reachable :: "GpuIndex \<Rightarrow> bool" where
  constructed: "GpuIndex_reachable (GpuIndex_ctor fresh dimension capacity)"
| added: "GpuIndex_reachable s \<Longrightarrow> add_single_vector s host_vec = Inr (ok, s') \<Longrightarrow>
     GpuIndex_reachable s'"
| loaded: "GpuIndex_reachable s \<Longrightarrow> load_data s slab_count slab_data = Inr s' \<Longrightarrow>
     GpuIndex_reachable s'"
| searched: "GpuIndex_reachable s \<Longrightarrow> search s queries k = Inr (res, s') \<Longrightarrow>
     GpuIndex_reachable s'"

section \<open>Example data\<close>

text \<open>
  Concrete inputs at which the theorems below are instantiated: a log holding the one
  record \<open>INSERT user 7, auto 0, row 5\<close>, and the objects it is replayed into.
\<close>

definition locals0 :: replay_locals where
  "locals0 = \<lparr>op_val = 0, user_id = 0, read_aid = 0, row_index = 0\<rparr>"

definition log_insert_7 :: "byte list" where
  "log_insert_7 = [1, 7, 0, 0, 0, 0, 0, 0, 0, 0, 0, 0, 0, 0, 0, 0, 0, 5, 0, 0, 0, 0, 0, 0, 0]"

definition slab_7 :: IdSlab where
  "slab_7 = \<lparr>user_auto = [7 \<mapsto> 0], auto_row = [5], logfile = log_insert_7, auto_id = 1\<rparr>"

definition slab_7_9 :: IdSlab where
  "slab_7_9 = \<lparr>user_auto = [7 \<mapsto> 0, 9 \<mapsto> 1], auto_row = [5, 4],
     logfile = log_insert_7 @ [1] @ bytes_of_u64 9 @ bytes_of_u64 1 @ bytes_of_u64 4, auto_id = 2\<rparr>"

definition slab_empty :: IdSlab where
  "slab_empty = \<lparr>user_auto = Map.empty, auto_row = [], logfile = [], auto_id = 0\<rparr>"

text \<open>
  For \<open>MatrixSlab\<close>: a mapped file of zero bytes of a given size with the four header
  fields written (what the constructor leaves on creation, for \<open>count = 0\<close> and
  \<open>capacity = 1000\<close>), a file of 128 zero bytes, a vector of four floats, and the slab
  newly created with dimension 4.
\<close>

definition mk_slab :: "nat \<Rightarrow> u64 \<Rightarrow> u64 \<Rightarrow> u64 \<Rightarrow> MatrixSlab" where
  "mk_slab sz cnt d cap =
     set_capacity (set_dim (set_count (set_magic
       \<lparr>file_content = replicate sz 0, page_tail = replicate (page_round sz - sz) 0,
        file_size = sz\<rparr> 0x26872687) cnt) d) cap"

definition zero_file :: "byte list" where
  "zero_file = replicate 128 0"

definition vec4 :: "u32 list" where
  "vec4 = [0x3F800000, 0, 0, 0]"

definition slab_new4 :: MatrixSlab where
  "slab_new4 = mk_slab 16128 0 4 1000"

text \<open>
  For \<open>GpuIndex\<close>: an index of capacity 3 holding the rows \<open>[1,0,0,0]\<close>, \<open>[0,1,0,0]\<close>,
  \<open>[1,1,0,0]\<close> with their norms; a newly constructed index with no rows; and an index of
  dimension 0 and capacity 1, constructed in device memory that holds the value 7, before
  and after its one row is added.
\<close>

definition gpu3 :: GpuIndex where
  "gpu3 = \<lparr>d_db = [1, 0, 0, 0, 0, 1, 0, 0, 1, 1, 0, 0], d_db_norms = [1, 1, 2],
     d_queries = replicate 400 0, d_q_norms = replicate 100 0, d_results = replicate 300 0,
     max_vectors = 3, dim = 4, current_count = 3, max_batch_size = 100\<rparr>"


definition gpu_dim0 :: GpuIndex where
  "gpu_dim0 = GpuIndex_ctor (\<lambda>i. 7) 0 1"

definition gpu_dim0_row :: GpuIndex where
  "gpu_dim0_row = gpu_dim0\<lparr>d_db_norms := [0], current_count := 1\<rparr>"

section \<open>Properties of the byte encodings\<close>

lemma length_le_bytes [simp]: "length (le_bytes k n) = k"
  by (induction k arbitrary: n) auto

lemma le_nat_le_bytes: "le_nat (le_bytes k n) = n mod 256 ^ k"
proof (induction k arbitrary: n)
  case 0
  then show ?case by simp
next
  case (Suc k)
  have "unat (of_nat (n mod 256) :: byte) = n mod 256"
    by (simp add: unat_of_nat)
  then show ?case
    using Suc [of "n div 256"] by (simp add: mod_mult2_eq)
qed

lemma length_bytes_of_u64 [simp]: "length (bytes_of_u64 w) = 8"
  by (simp add: bytes_of_u64_def)

lemma length_bytes_of_u32 [simp]: "length (bytes_of_u32 w) = 4"
  by (simp add: bytes_of_u32_def)

lemma u64_of_bytes_of_u64 [simp]: "u64_of_bytes (bytes_of_u64 w) = w"
proof -
  have "unat w < 2 ^ 64" using unsigned_less [of w] by simp
  then have "unat w mod 256 ^ 8 = unat w" by simp
  then show ?thesis by (simp add: u64_of_bytes_def bytes_of_u64_def le_nat_le_bytes)
qed

lemma u32_of_bytes_of_u32 [simp]: "u32_of_bytes (bytes_of_u32 w) = w"
proof -
  have "unat w < 2 ^ 32" using unsigned_less [of w] by simp
  then have "unat w mod 256 ^ 4 = unat w" by simp
  then show ?thesis by (simp add: u32_of_bytes_def bytes_of_u32_def le_nat_le_bytes)
qed

section \<open>Properties of IdSlab\<close>

lemma unat_succ_le: "unat (a + 1 :: u64) \<le> unat a + 1"
  by (metis add.commute unatSuc unat_eq_zero Suc_eq_plus1 le_refl zero_le)

lemma apply_record_inv:
  assumes "apply_record l s = Inr s'"
    and "unat (auto_id s) \<le> length (auto_row s)"
    and "length (auto_row s) \<le> vector_max_size"
  shows "unat (auto_id s') \<le> length (auto_row s') \<and> length (auto_row s') \<le> vector_max_size"
proof (cases "op_val l = OP_INSERT")
  case True
  let ?a = "read_aid l"
  show ?thesis
  proof (cases "length (auto_row s) \<le> unat ?a")
    case grow: True
    let ?n = "unat (?a + 1)"
    from assms(1) True grow have n: "?n \<le> vector_max_size"
      by (auto simp: apply_record_def vector_resize_def split: if_splits)
    define ar where "ar = take ?n (auto_row s) @ replicate (?n - length (auto_row s)) (- 1)"
    have len: "length ar = ?n" by (simp add: ar_def)
    from assms(1) True grow n have gt: "unat ?a < ?n"
      and s': "s' = s\<lparr>user_auto := (user_auto s)(user_id l \<mapsto> ?a),
                        auto_row := ar[unat ?a := row_index l],
                        auto_id := (if auto_id s \<le> ?a then ?a + 1 else auto_id s)\<rparr>"
      by (auto simp: apply_record_def vector_resize_def ar_def split: if_splits)
    have "unat (auto_id s) \<le> unat ?a" using assms(2) grow by simp
    then show ?thesis using s' gt n len by simp
  next
    case keep: False
    from assms(1) True keep
    have s': "s' = s\<lparr>user_auto := (user_auto s)(user_id l \<mapsto> ?a),
                      auto_row := (auto_row s)[unat ?a := row_index l],
                      auto_id := (if auto_id s \<le> ?a then ?a + 1 else auto_id s)\<rparr>"
      by (auto simp: apply_record_def split: if_splits)
    have "unat (?a + 1) \<le> length (auto_row s)"
      using unat_succ_le [of ?a] keep by simp
    then show ?thesis using s' assms(2,3) by simp
  qed
next
  case False
  with assms show ?thesis
    by (auto simp: apply_record_def split: if_splits)
qed

lemma replay_loop_inv:
  "replay_loop l st s = Inr s' \<Longrightarrow> unat (auto_id s) \<le> length (auto_row s) \<Longrightarrow>
   length (auto_row s) \<le> vector_max_size \<Longrightarrow>
   unat (auto_id s') \<le> length (auto_row s') \<and> length (auto_row s') \<le> vector_max_size"
proof (induction l st s rule: replay_loop.induct)
  case (1 l st s)
  obtain b l1 st1 where rr: "read_record l st = (b, l1, st1)"
    by (cases "read_record l st") auto
  show ?case
  proof (cases b)
    case False
    with rr "1.prems" show ?thesis by (simp add: replay_loop.simps [of l st s])
  next
    case True
    with rr "1.prems"(1) obtain s1 where ap: "apply_record l1 s = Inr s1"
      and rest: "replay_loop l1 st1 s1 = Inr s'"
      by (auto simp: replay_loop.simps [of l st s] split: sum.splits)
    from apply_record_inv [OF ap "1.prems"(2,3)]
    show ?thesis using "1.IH" [of b "(l1, st1)" l1 st1 s1] rr True ap rest by simp
  qed
qed

lemma IdSlab_ctor_inv:
  assumes "IdSlab_ctor l0 file = Inr s"
  shows "unat (auto_id s) = length (auto_row s)"
proof -
  let ?s0 = "\<lparr>user_auto = Map.empty, auto_row = [],
              logfile = (case file of None \<Rightarrow> [] | Some bs \<Rightarrow> bs), auto_id = 0\<rparr>"
  from assms obtain s1 where loop: "replay_loop l0 \<lparr>unread = logfile ?s0, good = True\<rparr> ?s0 = Inr s1"
    and s: "s = (if unat (auto_id s1) < length (auto_row s1)
                 then s1\<lparr>auto_id := of_nat (length (auto_row s1))\<rparr> else s1)"
    by (auto simp: IdSlab_ctor_def replay_log_def split: sum.splits)
  from replay_loop_inv [OF loop]
  have inv: "unat (auto_id s1) \<le> length (auto_row s1)" "length (auto_row s1) \<le> vector_max_size"
    by simp_all
  have "length (auto_row s1) < 2 ^ 64" using inv(2) by (simp add: vector_max_size_def)
  then have "unat (of_nat (length (auto_row s1)) :: u64) = length (auto_row s1)"
    by (simp add: unat_of_nat)
  then show ?thesis using s inv(1) by auto
qed

lemma IdSlab_insert_inv:
  assumes "IdSlab_insert s u r = Inr (res, s')" and "unat (auto_id s) = length (auto_row s)"
  shows "unat (auto_id s') = length (auto_row s')"
proof (cases "user_auto s u")
  case None
  with assms(1) have lt: "length (auto_row s) < vector_max_size"
    and s': "auto_id s' = auto_id s + 1" "auto_row s' = auto_row s @ [r]"
    by (auto simp: IdSlab_insert_def vector_push_back_def Let_def split: if_splits)
  have "unat (auto_id s) + unat (1 :: u64) < 2 ^ LENGTH(64)"
    using lt assms(2) by (simp add: vector_max_size_def)
  then have "unat (auto_id s + 1) = unat (auto_id s) + 1"
    by (simp only: unat_add_lem [THEN iffD1] unat_1)
  then show ?thesis using s' assms(2) by simp
next
  case (Some a)
  with assms show ?thesis by (simp add: IdSlab_insert_def)
qed

lemma IdSlab_remove_inv:
  "unat (auto_id s) = length (auto_row s) \<Longrightarrow>
   unat (auto_id (IdSlab_remove s u)) = length (auto_row (IdSlab_remove s u))"
  by (simp add: IdSlab_remove_def split: option.splits)

lemma IdSlab_reachable_inv:
  "IdSlab_reachable s \<Longrightarrow> unat (auto_id s) = length (auto_row s)"
  by (induction rule: IdSlab_reachable.induct)
     (auto intro: IdSlab_ctor_inv IdSlab_insert_inv IdSlab_remove_inv)

lemma read_record_full:
  "length bs = 24 \<Longrightarrow>
   read_record l \<lparr>unread = b # bs @ rest, good = True\<rparr> =
     (True, \<lparr>op_val = b, user_id = u64_of_bytes (take 8 bs),
              read_aid = u64_of_bytes (take 8 (drop 8 bs)),
              row_index = u64_of_bytes (drop 16 bs)\<rparr>,
      \<lparr>unread = rest, good = True\<rparr>)"
  by (simp add: read_record_def stream_read_def Let_def min_def drop_take)

lemma read_record_eof:
  "read_record l \<lparr>unread = [], good = True\<rparr> = (False, l, \<lparr>unread = [], good = False\<rparr>)"
  by (simp add: read_record_def stream_read_def Let_def)

lemma read_record_op_only:
  "read_record l \<lparr>unread = [b], good = True\<rparr> =
     (True, l\<lparr>op_val := b\<rparr>, \<lparr>unread = [], good = False\<rparr>)"
  by (simp add: read_record_def stream_read_def Let_def)

lemma read_record_bad:
  "read_record l \<lparr>unread = bs, good = False\<rparr> = (False, l, \<lparr>unread = bs, good = False\<rparr>)"
  by (simp add: read_record_def stream_read_def Let_def)

lemma replay_log_insert_7:
  "IdSlab_ctor l0 (Some log_insert_7) = Inr slab_7"
proof -
  have rr: "read_record l0 \<lparr>unread = log_insert_7, good = True\<rparr> =
     (True, \<lparr>op_val = 1, user_id = 7, read_aid = 0, row_index = 5\<rparr>, \<lparr>unread = [], good = True\<rparr>)"
    using read_record_full [of "tl log_insert_7" l0 1 "[]"]
    by (simp add: log_insert_7_def u64_of_bytes_def)
  show ?thesis
    by (simp add: IdSlab_ctor_def replay_log_def replay_loop.simps [of l0] rr
        replay_loop.simps [of _ "\<lparr>unread = [], good = True\<rparr>"] read_record_eof
        apply_record_def OP_INSERT_def OP_DELETE_def vector_resize_def vector_max_size_def slab_7_def)
qed

text \<open>
  Claim C2 says that a trailing fragment shorter than 25 bytes is ignored by the replay.
  The loop only checks the read of the first byte: a log made of the record
  \<open>INSERT user 7, auto 0, row 5\<close> followed by the single byte 2 enters the body a second
  time, the three unchecked reads fail and leave the locals of the first record in
  place, and the body runs as \<open>DELETE user 7, auto 0\<close>. The replay of the file with the
  fragment ends with user 7 unmapped and row 0 tombstoned; the replay of the complete
  record alone ends with user 7 mapped to row 5.
\<close>

theorem replay_applies_trailing_fragment:
  "IdSlab_ctor l0 (Some (log_insert_7 @ [2])) =
     Inr \<lparr>user_auto = Map.empty, auto_row = [- 1], logfile = log_insert_7 @ [2], auto_id = 1\<rparr> \<and>
   IdSlab_ctor l0 (Some log_insert_7) =
     Inr \<lparr>user_auto = [7 \<mapsto> 0], auto_row = [5], logfile = log_insert_7, auto_id = 1\<rparr>"
proof -
  have rr: "read_record l0 \<lparr>unread = log_insert_7 @ [2], good = True\<rparr> =
     (True, \<lparr>op_val = 1, user_id = 7, read_aid = 0, row_index = 5\<rparr>, \<lparr>unread = [2], good = True\<rparr>)"
    using read_record_full [of "tl log_insert_7" l0 1 "[2]"]
    by (simp add: log_insert_7_def u64_of_bytes_def)
  have "IdSlab_ctor l0 (Some (log_insert_7 @ [2])) =
     Inr \<lparr>user_auto = Map.empty, auto_row = [- 1], logfile = log_insert_7 @ [2], auto_id = 1\<rparr>"
    by (simp add: IdSlab_ctor_def replay_log_def replay_loop.simps [of l0] rr
        replay_loop.simps [of _ "\<lparr>unread = [2], good = True\<rparr>"] read_record_op_only
        replay_loop.simps [of _ "\<lparr>unread = [], good = False\<rparr>"] read_record_bad
        apply_record_def OP_INSERT_def OP_DELETE_def vector_resize_def vector_max_size_def)
  then show ?thesis using replay_log_insert_7 [of l0] by (simp add: slab_7_def)
qed

text \<open>
  Claim C3: for every \<open>IdSlab\<close> state and every user id that is already mapped,
  \<open>insert\<close> returns the absent auto id and the object is unchanged: the map, the array,
  the next auto id and the content of the log file are those before the call.
\<close>

theorem IdSlab_insert_duplicate_no_effect:
  "user_auto s u \<noteq> None \<Longrightarrow> IdSlab_insert s u r = Inr (None, s)"
  by (simp add: IdSlab_insert_def)

theorem IdSlab_insert_duplicate_witness:
  "user_auto slab_7 7 \<noteq> None \<and> IdSlab_insert slab_7 7 5 = Inr (None, slab_7)"
  using IdSlab_insert_duplicate_no_effect [of slab_7 7 5] by (simp add: slab_7_def)

lemma IdSlab_insert_fresh:
  assumes "user_auto s u = None" and "length (auto_row s) < vector_max_size"
  shows "IdSlab_insert s u r =
     Inr (Some (auto_id s),
          s\<lparr>auto_id := auto_id s + 1, user_auto := (user_auto s)(u \<mapsto> auto_id s),
            auto_row := auto_row s @ [r],
            logfile := write_log_entry OP_INSERT u (auto_id s) r (logfile s)\<rparr>)"
  using assms by (simp add: IdSlab_insert_def vector_push_back_def Let_def)

lemma unat_auto_id_succ:
  assumes "unat (a :: u64) < vector_max_size"
  shows "unat (a + 1) = unat a + 1"
proof -
  have "unat a + unat (1 :: u64) < 2 ^ LENGTH(64)"
    using assms by (simp add: vector_max_size_def)
  then show ?thesis by (simp only: unat_add_lem [THEN iffD1] unat_1)
qed

text \<open>
  Claim C10: in every state reached by construction (the replay of any file that the
  constructor survives), \<open>insert\<close> and \<open>remove\<close>, the next auto id equals the length of
  the auto-to-row array; hence a successful \<open>insert(u, r)\<close>, which appends with
  \<open>push_back\<close>, stores \<open>r\<close> at the index equal to the auto id it returns, and \<open>get_row\<close> of
  that id is \<open>r\<close> right after.
\<close>

theorem IdSlab_next_id_is_array_length:
  assumes "IdSlab_reachable s"
  shows "unat (auto_id s) = length (auto_row s) \<and>
    (\<forall>u r a s'. IdSlab_insert s u r = Inr (Some a, s') \<longrightarrow>
       unat a = length (auto_row s) \<and> auto_row s' = auto_row s @ [r] \<and> get_row s' a = r)"
proof -
  have inv: "unat (auto_id s) = length (auto_row s)"
    using assms by (rule IdSlab_reachable_inv)
  have "unat a = length (auto_row s) \<and> auto_row s' = auto_row s @ [r] \<and> get_row s' a = r"
    if ins: "IdSlab_insert s u r = Inr (Some a, s')" for u r a s'
  proof -
    from ins have a: "a = auto_id s" and ar: "auto_row s' = auto_row s @ [r]"
      by (auto simp: IdSlab_insert_def vector_push_back_def Let_def split: if_splits)
    show ?thesis using a ar inv by (simp add: get_row_def)
  qed
  with inv show ?thesis by blast
qed

lemma slab_7_reachable: "IdSlab_reachable slab_7"
  using replay_log_insert_7 [of locals0] by (rule IdSlab_reachable.constructed)

theorem IdSlab_next_id_is_array_length_witness:
  "IdSlab_reachable slab_7 \<and> unat (auto_id slab_7) = length (auto_row slab_7) \<and>
   IdSlab_insert slab_7 9 4 = Inr (Some 1, slab_7_9) \<and> get_row slab_7_9 1 = 4"
proof -
  have ins: "IdSlab_insert slab_7 9 4 = Inr (Some 1, slab_7_9)"
    by (simp add: IdSlab_insert_def vector_push_back_def vector_max_size_def Let_def
        slab_7_def slab_7_9_def write_log_entry_def OP_INSERT_def fun_upd_twist)
  from IdSlab_next_id_is_array_length [OF slab_7_reachable] ins slab_7_reachable
  show ?thesis by blast
qed

text \<open>
  Claim C8: in every reachable state with room for two more array elements, for a
  user id \<open>u\<close> that is not mapped, \<open>insert(u, r1)\<close>, \<open>remove(u)\<close>, \<open>insert(u, r2)\<close> has both
  inserts succeed, the second auto id is strictly larger than the first, and the row
  of \<open>u\<close> is \<open>r2\<close> afterwards.
\<close>

theorem IdSlab_insert_remove_insert:
  assumes "IdSlab_reachable s" and "user_auto s u = None"
    and "length (auto_row s) + 2 \<le> vector_max_size"
  shows "\<exists>a1 s1 a2 s2.
    IdSlab_insert s u r1 = Inr (Some a1, s1) \<and>
    IdSlab_insert (IdSlab_remove s1 u) u r2 = Inr (Some a2, s2) \<and>
    a1 < a2 \<and> get_row_from_user s2 u = r2"
proof -
  let ?L = "length (auto_row s)"
  let ?a = "auto_id s"
  have inv: "unat ?a = ?L" using assms(1) by (rule IdSlab_reachable_inv)
  define s1 where "s1 = s\<lparr>auto_id := ?a + 1, user_auto := (user_auto s)(u \<mapsto> ?a),
            auto_row := auto_row s @ [r1],
            logfile := write_log_entry OP_INSERT u ?a r1 (logfile s)\<rparr>"
  have i1: "IdSlab_insert s u r1 = Inr (Some ?a, s1)"
    unfolding s1_def using assms by (intro IdSlab_insert_fresh) simp_all
  define s1' where "s1' = IdSlab_remove s1 u"
  have r_ua: "user_auto s1' u = None" and r_len: "length (auto_row s1') = ?L + 1"
    and r_id: "auto_id s1' = ?a + 1"
    by (simp_all add: s1'_def s1_def IdSlab_remove_def)
  define s2 where "s2 = s1'\<lparr>auto_id := auto_id s1' + 1,
            user_auto := (user_auto s1')(u \<mapsto> auto_id s1'),
            auto_row := auto_row s1' @ [r2],
            logfile := write_log_entry OP_INSERT u (auto_id s1') r2 (logfile s1')\<rparr>"
  have i2: "IdSlab_insert s1' u r2 = Inr (Some (?a + 1), s2)"
    using IdSlab_insert_fresh [of s1' u r2] r_ua r_len r_id assms(3) by (simp add: s2_def)
  have succ: "unat (?a + 1) = ?L + 1"
    using unat_auto_id_succ [of ?a] inv assms(3) by simp
  have lt: "?a < ?a + 1" using succ inv by (simp add: word_less_nat_alt)
  have "get_row_from_user s2 u = r2"
    using succ r_len r_id by (simp add: get_row_from_user_def get_row_def s2_def nth_append)
  with i1 i2 lt show ?thesis unfolding s1'_def by blast
qed

lemma slab_empty_reachable: "IdSlab_reachable slab_empty"
proof -
  have "IdSlab_ctor locals0 None = Inr slab_empty"
    by (simp add: IdSlab_ctor_def replay_log_def replay_loop.simps [of locals0]
        read_record_eof slab_empty_def)
  then show ?thesis by (rule IdSlab_reachable.constructed)
qed

theorem IdSlab_insert_remove_insert_witness:
  "IdSlab_reachable slab_empty \<and> user_auto slab_empty 7 = None \<and>
   length (auto_row slab_empty) + 2 \<le> vector_max_size \<and>
   (\<exists>a1 s1 a2 s2.
      IdSlab_insert slab_empty 7 0 = Inr (Some a1, s1) \<and>
      IdSlab_insert (IdSlab_remove s1 7) 7 2 = Inr (Some a2, s2) \<and>
      a1 < a2 \<and> get_row_from_user s2 7 = 2)"
proof -
  have h: "user_auto slab_empty 7 = None" "length (auto_row slab_empty) + 2 \<le> vector_max_size"
    by (simp_all add: slab_empty_def vector_max_size_def)
  from IdSlab_insert_remove_insert [OF slab_empty_reachable h, of 0 2] slab_empty_reachable h
  show ?thesis by blast
qed

section \<open>Properties of MatrixSlab\<close>

subsection \<open>Memory\<close>

lemma length_poke [simp]: "off + length bs \<le> length m \<Longrightarrow> length (poke off bs m) = length m"
  by (simp add: poke_def)

lemma peek_poke_same:
  "off + length bs \<le> length m \<Longrightarrow> n = length bs \<Longrightarrow> peek off n (poke off bs m) = bs"
  by (simp add: peek_def poke_def)

lemma peek_poke_before:
  "off + n \<le> off' \<Longrightarrow> off' \<le> length m \<Longrightarrow> peek off n (poke off' bs m) = peek off n m"
  by (simp add: peek_def poke_def take_drop)

lemma peek_poke_after:
  "off' + length bs \<le> off \<Longrightarrow> off' + length bs \<le> length m \<Longrightarrow>
   peek off n (poke off' bs m) = peek off n m"
  by (simp add: peek_def poke_def)

lemma peek_truncated:
  "off + n \<le> k \<Longrightarrow> off + n \<le> length m \<Longrightarrow> peek off n (take k m @ zs) = peek off n m"
  by (simp add: peek_def take_drop)

lemma peek_append:
  "off + n \<le> length m \<Longrightarrow> peek off n (m @ zs) = peek off n m"
  by (simp add: peek_def)

lemma length_peek [simp]: "off + n \<le> length m \<Longrightarrow> length (peek off n m) = n"
  by (simp add: peek_def)

lemma poke_nothing [simp]: "poke off [] m = m"
  by (simp add: poke_def)

lemma page_round_ge: "n \<le> page_round n"
proof -
  define x where "x = n + 4095"
  have "x div 4096 * 4096 + x mod 4096 = x" by (rule div_mult_mod_eq)
  moreover have "x mod 4096 < 4096" by simp
  ultimately have "n \<le> x div 4096 * 4096" unfolding x_def by linarith
  then show ?thesis by (simp add: page_round_def PAGE_SIZE_def x_def)
qed

lemma page_round_pos: "0 < n \<Longrightarrow> 4096 \<le> page_round n"
proof -
  assume "0 < n"
  then have "4096 \<le> n + 4095" by simp
  then have "4096 div 4096 \<le> (n + 4095) div 4096" by (rule div_le_mono)
  then have "1 * 4096 \<le> (n + 4095) div 4096 * 4096" by (intro mult_le_mono1) simp
  then show ?thesis by (simp add: page_round_def PAGE_SIZE_def)
qed

lemma page_round_le: "n \<le> 2 ^ 63 \<Longrightarrow> page_round n \<le> 2 ^ 63"
proof -
  assume "n \<le> 2 ^ 63"
  then have "n + 4095 \<le> 2 ^ 63 + 4095" by simp
  then have "(n + 4095) div 4096 \<le> (2 ^ 63 + 4095) div 4096" by (rule div_le_mono)
  also have "\<dots> = (2251799813685248 :: nat)" by simp
  finally have "(n + 4095) div 4096 * 4096 \<le> 2251799813685248 * 4096" by (rule mult_le_mono1)
  then show ?thesis by (simp add: page_round_def PAGE_SIZE_def)
qed

lemma page_round_values [simp]:
  "page_round 128 = 4096" "page_round 132 = 4096" "page_round 16128 = 16384"
  "page_round 136 = 4096"
  by (simp_all add: page_round_def PAGE_SIZE_def)

lemma memory_write [simp]: "memory (write_memory s off bs) = poke off bs (memory s)"
  by (simp add: write_memory_def memory_def Let_def)

lemma file_size_write [simp]: "file_size (write_memory s off bs) = file_size s"
  by (simp add: write_memory_def Let_def)

lemma write_memory_lengths:
  assumes "off + length bs \<le> length (memory s)"
  shows "length (file_content (write_memory s off bs)) = length (file_content s)"
    and "length (page_tail (write_memory s off bs)) = length (page_tail s)"
proof -
  have "length (poke off bs (memory s)) = length (memory s)" using assms by simp
  then show "length (file_content (write_memory s off bs)) = length (file_content s)"
    and "length (page_tail (write_memory s off bs)) = length (page_tail s)"
    by (simp_all add: write_memory_def Let_def memory_def)
qed

lemma length_memory: "mapping_inv s \<Longrightarrow> length (memory s) = page_round (file_size s)"
  using page_round_ge [of "file_size s"] by (simp add: mapping_inv_def memory_def)

lemma mapped_len_inv: "mapping_inv s \<Longrightarrow> mapped_len s = page_round (file_size s)"
  by (simp add: mapped_len_def length_memory)

lemma mapping_inv_pages:
  assumes "mapping_inv s"
  shows "4096 \<le> page_round (file_size s)" and "page_round (file_size s) \<le> 2 ^ 63"
    and "file_size s \<le> page_round (file_size s)"
proof -
  from assms have a: "0 < file_size s" and b: "file_size s < 2 ^ 63"
    unfolding mapping_inv_def by blast+
  show "4096 \<le> page_round (file_size s)" using a by (rule page_round_pos)
  have "file_size s \<le> 2 ^ 63" using b by simp
  then show "page_round (file_size s) \<le> 2 ^ 63" by (rule page_round_le)
  show "file_size s \<le> page_round (file_size s)" by (rule page_round_ge)
qed

lemma mapping_inv_write:
  assumes "mapping_inv s" and "off + length bs \<le> page_round (file_size s)"
  shows "mapping_inv (write_memory s off bs)"
proof -
  have "off + length bs \<le> length (memory s)" using assms by (simp add: length_memory)
  note wl = write_memory_lengths [OF this]
  from assms(1) have "file_size s = length (file_content s)" "0 < file_size s"
    "file_size s < 2 ^ 63" "length (page_tail s) = page_round (file_size s) - file_size s"
    unfolding mapping_inv_def by blast+
  then show ?thesis
    unfolding mapping_inv_def wl file_size_write by blast
qed

lemma length_concat_bytes_of_u32 [simp]: "length (concat (map bytes_of_u32 v)) = 4 * length v"
  by (induction v) simp_all

lemma le_bytes_4: "le_bytes 4 n = [of_nat (n mod 256), of_nat (n div 256 mod 256),
   of_nat (n div 256 div 256 mod 256), of_nat (n div 256 div 256 div 256 mod 256)]"
proof -
  have "4 = Suc (Suc (Suc (Suc 0)))" by simp
  then show ?thesis by (simp only: le_bytes.simps)
qed

lemma floats_of_bytes_concat [simp]: "floats_of_bytes (concat (map bytes_of_u32 v)) = v"
proof (induction v)
  case Nil
  then show ?case by simp
next
  case (Cons w v)
  obtain a b c d where abcd: "bytes_of_u32 w = [a, b, c, d]"
    by (simp add: bytes_of_u32_def le_bytes_4)
  have "u32_of_bytes [a, b, c, d] = w"
    using u32_of_bytes_of_u32 [of w] by (simp only: abcd)
  then show ?case using Cons by (simp add: abcd)
qed

lemma stored_memory:
  fixes M :: "byte list"
  assumes M': "M' = poke 8 cb (poke dst src M)" and cb: "length cb = 8"
    and dst: "128 \<le> dst" and fit: "dst + length src \<le> length M"
  shows "length M' = length M"
    and "peek 8 8 M' = cb"
    and "\<And>off n. off + n \<le> 8 \<or> 16 \<le> off \<Longrightarrow> off + n \<le> dst \<Longrightarrow> peek off n M' = peek off n M"
    and "peek dst (length src) M' = src"
proof -
  define M2 where "M2 = poke dst src M"
  have len2: "length M2 = length M" using fit by (simp add: M2_def)
  have big: "16 \<le> length M2" using dst fit len2 by simp
  show "length M' = length M" using big cb len2 by (simp add: M' M2_def [symmetric])
  show "peek 8 8 M' = cb"
    unfolding M' M2_def [symmetric] using big cb by (intro peek_poke_same) simp_all
  have far: "peek off n M' = peek off n M2" if "off + n \<le> 8 \<or> 16 \<le> off" for off n
    using that big cb unfolding M' M2_def [symmetric]
    by (auto simp: peek_poke_before peek_poke_after)
  show "peek off n M' = peek off n M" if a: "off + n \<le> 8 \<or> 16 \<le> off" and b: "off + n \<le> dst"
    for off n
  proof -
    have "peek off n M' = peek off n M2" using a by (rule far)
    also have "\<dots> = peek off n M"
      unfolding M2_def using b fit by (intro peek_poke_before) simp_all
    finally show ?thesis .
  qed
  have "peek dst (length src) M' = peek dst (length src) M2"
    using dst by (intro far) simp
  also have "\<dots> = src" unfolding M2_def using fit by (intro peek_poke_same) simp_all
  finally show "peek dst (length src) M' = src" .
qed

lemma grow_file_Inr:
  assumes g: "grow_file s c = Inr s1" and mi: "mapping_inv s"
  shows "mapping_inv s1"
    and "file_size s1 = unat (128 + c * 4 * hdr_dim s)"
    and "hdr_capacity s1 = c"
    and "\<And>off n. off + n \<le> file_size s \<Longrightarrow> off + n \<le> file_size s1 \<Longrightarrow>
           off + n \<le> 24 \<or> 32 \<le> off \<Longrightarrow> peek off n (memory s1) = peek off n (memory s)"
proof -
  define nb where "nb = unat (128 + c * 4 * hdr_dim s)"
  define F where "F = file_content s"
  define F1 where "F1 = take nb F @ replicate (nb - length F) 0"
  define Z where "Z = replicate (page_round nb - nb) (0 :: byte)"
  define s0 where "s0 = s\<lparr>file_content := F1, file_size := nb, page_tail := Z\<rparr>"
  have lenF1: "length F1 = nb" by (simp add: F1_def)
  from g obtain f sm where ft: "ftruncate F nb = Inr f"
    and mf: "map_file (s\<lparr>file_content := f\<rparr>) nb = Inr sm" and s1m: "s1 = set_capacity sm c"
    by (auto simp: grow_file_def Let_def nb_def F_def split: sum.splits)
  from ft have nb63: "nb < 2 ^ 63" and f: "f = F1"
    by (auto simp: ftruncate_def F1_def split: if_splits)
  from mf have nb0: "nb \<noteq> 0"
    and sm: "sm = s\<lparr>file_content := f, file_size := nb,
       page_tail := replicate (page_round (length f) - length f) 0\<rparr>"
    by (auto simp: map_file_def split: if_splits)
  note nb = nb63 nb0
  have "sm = s0" by (simp only: sm f lenF1 s0_def Z_def)
  then have s1: "s1 = set_capacity s0 c" using s1m by simp
  have mi0: "mapping_inv s0"
    using nb by (simp add: mapping_inv_def s0_def lenF1 Z_def)
  have fs0: "file_size s0 = nb" by (simp add: s0_def)
  note pg = mapping_inv_pages [OF mi0, unfolded fs0]
  have m0: "memory s0 = F1 @ Z" by (simp add: memory_def s0_def)
  have len0: "length (memory s0) = page_round nb" using length_memory [OF mi0] by (simp add: fs0)
  have m1: "memory s1 = poke 24 (bytes_of_u64 c) (F1 @ Z)"
    by (simp add: s1 set_capacity_def m0)
  show "mapping_inv s1"
    unfolding s1 set_capacity_def using mi0
  proof (rule mapping_inv_write)
    show "24 + length (bytes_of_u64 c) \<le> page_round (file_size s0)"
      using pg by (simp add: fs0)
  qed
  show fs1: "file_size s1 = unat (128 + c * 4 * hdr_dim s)"
    by (simp add: s1 set_capacity_def fs0 nb_def)
  have big: "32 \<le> length (F1 @ Z)" using len0 pg by (simp add: m0)
  show "hdr_capacity s1 = c"
    using big by (simp add: hdr_capacity_def m1 peek_poke_same)
  show "peek off n (memory s1) = peek off n (memory s)"
    if a: "off + n \<le> file_size s" and b: "off + n \<le> file_size s1"
      and c: "off + n \<le> 24 \<or> 32 \<le> off" for off n
  proof -
    have fsF: "file_size s = length F" using mi by (simp add: mapping_inv_def F_def)
    have b': "off + n \<le> nb" using b by (simp add: fs1 nb_def)
    have "peek off n (memory s1) = peek off n (F1 @ Z)"
      unfolding m1 using c big by (auto simp: peek_poke_before peek_poke_after)
    also have "\<dots> = peek off n F1" using b' by (intro peek_append) (simp add: lenF1)
    also have "\<dots> = peek off n F"
      unfolding F1_def using a b' by (intro peek_truncated) (simp_all add: fsF)
    also have "\<dots> = peek off n (memory s)"
      unfolding memory_def F_def [symmetric] using a
      by (intro peek_append [symmetric]) (simp add: fsF)
    finally show ?thesis .
  qed
qed

lemma grow_file_returns:
  assumes "unat (128 + c * 4 * hdr_dim s) \<noteq> 0" and "unat (128 + c * 4 * hdr_dim s) < 2 ^ 63"
  shows "\<exists>s1. grow_file s c = Inr s1"
  using assms by (simp add: grow_file_def Let_def ftruncate_def map_file_def)

lemma grow_file_fails:
  assumes "2 ^ 63 \<le> unat (128 + c * 4 * hdr_dim s)"
  shows "grow_file s c = Inl ftruncate_failed"
  using assms by (simp add: grow_file_def Let_def ftruncate_def)

lemma row_offsets:
  assumes acc: "128 + 4 * (unat (cnt :: u64) * unat (d :: u64)) \<le> L" and L: "L \<le> 2 ^ 63"
  shows "unat (cnt * d) = unat cnt * unat d"
    and "unat (128 + 4 * (cnt * d)) = 128 + 4 * (unat cnt * unat d)"
proof -
  have b: "unat cnt * unat d < 2 ^ 61" using acc L by simp
  then have "unat cnt * unat d < 2 ^ LENGTH(64)" by simp
  then show off: "unat (cnt * d) = unat cnt * unat d"
    by (simp only: unat_mult_lem [THEN iffD1])
  have "unat (4 :: u64) * unat (cnt * d) < 2 ^ LENGTH(64)" using b by (simp add: off)
  then have four: "unat (4 * (cnt * d)) = 4 * (unat cnt * unat d)"
    by (simp only: unat_mult_lem [THEN iffD1] off) simp
  have "unat (128 :: u64) + unat (4 * (cnt * d)) < 2 ^ LENGTH(64)"
    using b by (simp add: four)
  then have "unat (128 + 4 * (cnt * d)) = unat (128 :: u64) + unat (4 * (cnt * d))"
    by (simp only: unat_add_lem [THEN iffD1])
  then show "unat (128 + 4 * (cnt * d)) = 128 + 4 * (unat cnt * unat d)"
    by (simp add: four)
qed

lemma row_length:
  assumes "4 * unat (d :: u64) < 2 ^ 64"
  shows "unat (d * 4) = 4 * unat d"
proof -
  have "unat d * unat (4 :: u64) < 2 ^ LENGTH(64)" using assms by simp
  then have "unat (d * 4) = unat d * unat (4 :: u64)"
    by (simp only: unat_mult_lem [THEN iffD1])
  then show ?thesis by simp
qed

lemma store_vector_Inr:
  assumes mi: "mapping_inv s"
    and acc: "128 + 4 * (unat (hdr_count s) * unat (hdr_dim s)) \<le> page_round (file_size s)"
    and lv: "length v = unat (hdr_dim s)" and small: "4 * length v < 2 ^ 64"
    and st: "store_vector s v = Inr s'"
  shows "128 + 4 * (unat (hdr_count s) * unat (hdr_dim s)) + 4 * unat (hdr_dim s)
           \<le> page_round (file_size s)"
    and "memory s' =
           poke 8 (bytes_of_u64 (hdr_count s + 1))
             (poke (128 + 4 * (unat (hdr_count s) * unat (hdr_dim s)))
                (concat (map bytes_of_u32 v)) (memory s))"
    and "mapping_inv s'"
    and "file_size s' = file_size s"
proof -
  define C where "C = unat (hdr_count s)"
  define D where "D = unat (hdr_dim s)"
  define src where "src = concat (map bytes_of_u32 v)"
  define dst where "dst = 128 + 4 * (C * D)"
  note pg = mapping_inv_pages [OF mi]
  note ro = row_offsets [OF acc pg(2)]
  have n: "unat (hdr_dim s * 4) = 4 * D"
    using small lv unfolding D_def by (intro row_length) simp
  have d: "unat (128 + 4 * (hdr_count s * hdr_dim s)) = dst"
    using ro(2) by (simp add: dst_def C_def D_def)
  have lsrc: "length src = 4 * D" by (simp add: src_def lv D_def)
  have ml: "mapped_len s = page_round (file_size s)" using mi by (rule mapped_len_inv)
  have tk: "take (4 * D) src = src" by (simp add: lsrc)
  have st': "(if 4 * D \<noteq> 0 \<and> page_round (file_size s) < dst + 4 * D then Inl undefined_behaviour
      else Inr (set_count (write_memory s dst src) (hdr_count s + 1))) = Inr s'"
    using st unfolding store_vector_def Let_def n d ml src_def [symmetric] tk
    by (simp add: lsrc)
  have fit: "dst + 4 * D \<le> page_round (file_size s)"
  proof (cases "D = 0")
    case True
    then show ?thesis using acc by (simp add: dst_def C_def D_def)
  next
    case False
    then show ?thesis using st' by (simp split: if_splits)
  qed
  then show "128 + 4 * (unat (hdr_count s) * unat (hdr_dim s)) + 4 * unat (hdr_dim s)
           \<le> page_round (file_size s)"
    by (simp add: dst_def C_def D_def)
  have s': "s' = set_count (write_memory s dst src) (hdr_count s + 1)"
    using st' fit by (simp split: if_splits)
  show "memory s' =
           poke 8 (bytes_of_u64 (hdr_count s + 1))
             (poke (128 + 4 * (unat (hdr_count s) * unat (hdr_dim s)))
                (concat (map bytes_of_u32 v)) (memory s))"
    by (simp add: s' set_count_def dst_def C_def D_def src_def)
  have mw: "mapping_inv (write_memory s dst src)"
    using mi
  proof (rule mapping_inv_write)
    show "dst + length src \<le> page_round (file_size s)" using fit by (simp add: lsrc)
  qed
  show "mapping_inv s'"
    unfolding s' set_count_def using mw
  proof (rule mapping_inv_write)
    show "8 + length (bytes_of_u64 (hdr_count s + 1))
        \<le> page_round (file_size (write_memory s dst src))"
      using pg by simp
  qed
  show "file_size s' = file_size s" by (simp add: s' set_count_def)
qed

lemma store_vector_returns:
  assumes mi: "mapping_inv s"
    and lv: "length v = unat (hdr_dim s)" and small: "4 * length v < 2 ^ 64"
    and room: "128 + 4 * (unat (hdr_count s) * unat (hdr_dim s)) + 4 * unat (hdr_dim s)
           \<le> page_round (file_size s)"
  shows "\<exists>s'. store_vector s v = Inr s'"
proof -
  note pg = mapping_inv_pages [OF mi]
  have acc: "128 + 4 * (unat (hdr_count s) * unat (hdr_dim s)) \<le> page_round (file_size s)"
    using room by simp
  note ro = row_offsets [OF acc pg(2)]
  have n: "unat (hdr_dim s * 4) = 4 * unat (hdr_dim s)"
    using small lv by (intro row_length) simp
  have ml: "mapped_len s = page_round (file_size s)" using mi by (rule mapped_len_inv)
  show ?thesis
    using room by (simp add: store_vector_def Let_def n ro(2) ml lv)
qed

subsection \<open>Appends\<close>

lemma doubled_size:
  assumes "128 + 4 * (unat (cap :: u64) * unat (d :: u64)) < 2 ^ 63"
  shows "unat (128 + cap * 2 * 4 * d) = 128 + 8 * (unat cap * unat d)"
    and "d \<noteq> 0 \<Longrightarrow> unat (cap * 2) = 2 * unat cap"
proof -
  have two: "unat (cap * 2) = 2 * unat cap" if "d \<noteq> 0"
  proof -
    have "unat d \<noteq> 0" using that by (simp add: unat_eq_zero)
    then have "unat cap \<le> unat cap * unat d" by simp
    moreover have "unat cap * unat d < 2 ^ 61" using assms by simp
    ultimately have "unat cap < 2 ^ 61" by (rule le_less_trans)
    then have "unat cap * unat (2 :: u64) < 2 ^ LENGTH(64)" by simp
    then have "unat (cap * 2) = unat cap * unat (2 :: u64)"
      by (simp only: unat_mult_lem [THEN iffD1])
    then show ?thesis by simp
  qed
  then show "d \<noteq> 0 \<Longrightarrow> unat (cap * 2) = 2 * unat cap" .
  show "unat (128 + cap * 2 * 4 * d) = 128 + 8 * (unat cap * unat d)"
  proof (cases "d = 0")
    case True
    then show ?thesis by simp
  next
    case False
    have eq: "cap * 2 * 4 * d = 8 * (cap * d)" by simp
    have cd: "unat cap * unat d < 2 ^ 61" using assms by simp
    then have "unat cap * unat d < 2 ^ LENGTH(64)" by simp
    then have p: "unat (cap * d) = unat cap * unat d"
      by (simp only: unat_mult_lem [THEN iffD1])
    have "unat (8 :: u64) * unat (cap * d) < 2 ^ LENGTH(64)" using cd by (simp add: p)
    then have e: "unat (8 * (cap * d)) = 8 * (unat cap * unat d)"
      by (simp only: unat_mult_lem [THEN iffD1] p) simp
    have "unat (128 :: u64) + unat (8 * (cap * d)) < 2 ^ LENGTH(64)"
      using assms by (simp add: e)
    then have "unat (128 + 8 * (cap * d)) = unat (128 :: u64) + unat (8 * (cap * d))"
      by (simp only: unat_add_lem [THEN iffD1])
    then show ?thesis by (simp only: eq e) simp
  qed
qed

lemma unat_Suc_word:
  "unat (w :: u64) + 1 < 2 ^ 64 \<Longrightarrow> unat (w + 1) = unat w + 1"
proof -
  assume "unat w + 1 < 2 ^ 64"
  then have "unat w + unat (1 :: u64) < 2 ^ LENGTH(64)" by simp
  then show ?thesis by (simp only: unat_add_lem [THEN iffD1] unat_1)
qed

lemma holds_capacity_rows:
  assumes mi: "mapping_inv s" and hc: "holds_capacity s"
  shows "128 + 4 * (unat (hdr_count s) * unat (hdr_dim s)) \<le> file_size s"
    and "128 + 4 * (unat (hdr_capacity s) * unat (hdr_dim s)) < 2 ^ 63"
    and "128 \<le> file_size s"
proof -
  from hc have cap: "128 + 4 * (unat (hdr_capacity s) * unat (hdr_dim s)) \<le> file_size s"
    and or: "hdr_dim s = 0 \<or> hdr_count s \<le> hdr_capacity s"
    by (auto simp: holds_capacity_def sizeof_SlabHeader_def)
  from mi have fs: "file_size s < 2 ^ 63" unfolding mapping_inv_def by blast
  show "128 + 4 * (unat (hdr_capacity s) * unat (hdr_dim s)) < 2 ^ 63"
    using cap fs by simp
  show "128 \<le> file_size s" using cap by simp
  from or show "128 + 4 * (unat (hdr_count s) * unat (hdr_dim s)) \<le> file_size s"
  proof
    assume "hdr_dim s = 0"
    then show ?thesis using cap by simp
  next
    assume "hdr_count s \<le> hdr_capacity s"
    then have "unat (hdr_count s) \<le> unat (hdr_capacity s)" by (simp add: word_le_nat_alt)
    then have "unat (hdr_count s) * unat (hdr_dim s) \<le> unat (hdr_capacity s) * unat (hdr_dim s)"
      by (rule mult_le_mono1)
    then show ?thesis using cap by linarith
  qed
qed

lemma slab_inv_rows:
  assumes "slab_inv s"
  shows "mapping_inv s"
    and "128 + 4 * (unat (hdr_count s) * unat (hdr_dim s)) \<le> page_round (file_size s)"
    and "hdr_capacity s \<le> hdr_count s \<Longrightarrow> holds_capacity s"
proof -
  from assms show mi: "mapping_inv s" by (simp add: slab_inv_def)
  note pg = mapping_inv_pages [OF mi]
  from assms have "holds_capacity s \<or>
      128 + 4 * (unat (hdr_count s) * unat (hdr_dim s)) \<le> page_round (file_size s)"
    by (auto simp: slab_inv_def sizeof_SlabHeader_def)
  then show "128 + 4 * (unat (hdr_count s) * unat (hdr_dim s)) \<le> page_round (file_size s)"
    using holds_capacity_rows(1) [OF mi] pg(3) by (auto intro: order_trans)
  show "holds_capacity s" if "hdr_capacity s \<le> hdr_count s"
  proof -
    have "\<not> hdr_count s < hdr_capacity s" using that by simp
    with assms show ?thesis by (auto simp: slab_inv_def)
  qed
qed

lemma grow_when_full:
  assumes mi: "mapping_inv s" and hc: "holds_capacity s"
    and full: "hdr_capacity s \<le> hdr_count s"
    and g: "grow_file s (hdr_capacity s * 2) = Inr s1"
  shows "mapping_inv s1"
    and "hdr_count s1 = hdr_count s"
    and "hdr_dim s1 = hdr_dim s"
    and "hdr_capacity s1 = hdr_capacity s * 2"
    and "file_size s1 = 128 + 8 * (unat (hdr_capacity s) * unat (hdr_dim s))"
    and "128 + 4 * (unat (hdr_count s) * unat (hdr_dim s)) + 4 * unat (hdr_dim s) \<le> file_size s1"
    and "\<And>r. r < unat (hdr_count s) \<Longrightarrow> row_bytes s1 r = row_bytes s r"
    and "hdr_dim s \<noteq> 0 \<Longrightarrow> unat (hdr_capacity s * 2) = 2 * unat (hdr_capacity s)"
    and "hdr_dim s \<noteq> 0 \<Longrightarrow> hdr_count s = hdr_capacity s"
proof -
  define C where "C = unat (hdr_count s)"
  define D where "D = unat (hdr_dim s)"
  define K where "K = unat (hdr_capacity s)"
  note rows = holds_capacity_rows [OF mi hc, folded C_def D_def K_def]
  note ds = doubled_size [OF rows(2) [unfolded K_def D_def], folded K_def D_def]
  note gf = grow_file_Inr [OF g mi]
  show "mapping_inv s1" by (rule gf(1))
  show cap1: "hdr_capacity s1 = hdr_capacity s * 2" by (rule gf(3))
  show fs1: "file_size s1 = 128 + 8 * (unat (hdr_capacity s) * unat (hdr_dim s))"
    using gf(2) ds(1) by (simp add: K_def D_def)
  show two: "unat (hdr_capacity s * 2) = 2 * unat (hdr_capacity s)" if "hdr_dim s \<noteq> 0"
    using ds(2) [OF that] by (simp add: K_def)
  have eq: "hdr_count s = hdr_capacity s \<and> 0 < K" if "hdr_dim s \<noteq> 0"
  proof -
    from hc that have "hdr_count s \<le> hdr_capacity s" "0 < hdr_capacity s"
      by (auto simp: holds_capacity_def)
    with full show ?thesis by (auto simp: K_def word_less_nat_alt)
  qed
  then show "hdr_dim s \<noteq> 0 \<Longrightarrow> hdr_count s = hdr_capacity s" by blast
  have big: "128 \<le> file_size s1" by (simp add: fs1)
  have "peek 8 8 (memory s1) = peek 8 8 (memory s)"
    using rows(3) big by (intro gf(4)) simp_all
  then show cnt1: "hdr_count s1 = hdr_count s" by (simp add: hdr_count_def)
  have "peek 16 8 (memory s1) = peek 16 8 (memory s)"
    using rows(3) big by (intro gf(4)) simp_all
  then show dim1: "hdr_dim s1 = hdr_dim s" by (simp add: hdr_dim_def)
  have room: "128 + 4 * (C * D) + 4 * D \<le> file_size s1"
  proof (cases "hdr_dim s = 0")
    case True
    then show ?thesis by (simp add: fs1 D_def)
  next
    case False
    from eq [OF False] have "C = K" "0 < K" by (simp_all add: C_def K_def)
    then have "(C + 1) * D \<le> (2 * K) * D" by (intro mult_le_mono1) simp
    then show ?thesis by (simp add: fs1 K_def [symmetric] D_def [symmetric] algebra_simps)
  qed
  then show "128 + 4 * (unat (hdr_count s) * unat (hdr_dim s)) + 4 * unat (hdr_dim s)
      \<le> file_size s1"
    by (simp add: C_def D_def)
  show "row_bytes s1 r = row_bytes s r" if r: "r < unat (hdr_count s)" for r
  proof -
    have "Suc r \<le> C" using r by (simp add: C_def)
    then have "Suc r * D \<le> C * D" by (rule mult_le_mono1)
    then have le: "128 + 4 * (r * D) + 4 * D \<le> 128 + 4 * (C * D)" by simp
    have "peek (128 + 4 * (r * D)) (4 * D) (memory s1) = peek (128 + 4 * (r * D)) (4 * D) (memory s)"
      using le rows(1) room by (intro gf(4)) simp_all
    then show ?thesis by (simp add: row_bytes_def dim1 sizeof_SlabHeader_def D_def)
  qed
qed

lemma add_vector_Inr:
  assumes inv: "slab_inv s" and lv: "length v = unat (hdr_dim s)"
    and small: "4 * length v < 2 ^ 64" and add: "add_vector s v = Inr s'"
  shows "hdr_count s' = hdr_count s + 1"
    and "hdr_dim s' = hdr_dim s"
    and "hdr_capacity s' = (if hdr_capacity s \<le> hdr_count s then hdr_capacity s * 2 else hdr_capacity s)"
    and "row_bytes s' (unat (hdr_count s)) = concat (map bytes_of_u32 v)"
    and "\<And>r. r < unat (hdr_count s) \<Longrightarrow> row_bytes s' r = row_bytes s r"
    and "mapping_inv s'"
    and "128 + 4 * ((unat (hdr_count s) + 1) * unat (hdr_dim s)) \<le> page_round (file_size s')"
    and "file_size s' =
          (if hdr_capacity s \<le> hdr_count s
           then 128 + 8 * (unat (hdr_capacity s) * unat (hdr_dim s)) else file_size s)"
proof -
  define C where "C = unat (hdr_count s)"
  define D where "D = unat (hdr_dim s)"
  note sr = slab_inv_rows [OF inv]
  note pg = mapping_inv_pages [OF sr(1)]
  have ml: "mapped_len s = page_round (file_size s)" using sr(1) by (rule mapped_len_inv)
  define g where "g = (if hdr_capacity s \<le> hdr_count s then grow_file s (hdr_capacity s * 2) else Inr s)"
  have add': "(case g of Inl e \<Rightarrow> Inl e | Inr s1 \<Rightarrow> store_vector s1 v) = Inr s'"
    using add pg(1) unfolding add_vector_def g_def by (simp add: ml sizeof_SlabHeader_def)
  then obtain s1 where s1: "g = Inr s1" and st: "store_vector s1 v = Inr s'"
    by (cases g) simp_all
  have p1: "mapping_inv s1 \<and> hdr_count s1 = hdr_count s \<and> hdr_dim s1 = hdr_dim s \<and>
      hdr_capacity s1 = (if hdr_capacity s \<le> hdr_count s then hdr_capacity s * 2 else hdr_capacity s) \<and>
      128 + 4 * (C * D) \<le> page_round (file_size s1) \<and>
      file_size s1 = (if hdr_capacity s \<le> hdr_count s
           then 128 + 8 * (unat (hdr_capacity s) * unat (hdr_dim s)) else file_size s) \<and>
      (\<forall>r < C. row_bytes s1 r = row_bytes s r)"
  proof (cases "hdr_capacity s \<le> hdr_count s")
    case False
    then have "s1 = s" using s1 by (simp add: g_def)
    then show ?thesis using False sr(1,2) by (simp add: C_def D_def)
  next
    case True
    then have g': "grow_file s (hdr_capacity s * 2) = Inr s1" using s1 by (simp add: g_def)
    note gw = grow_when_full [OF sr(1) sr(3) [OF True] True g']
    have "128 + 4 * (C * D) \<le> file_size s1" using gw(6) by (simp add: C_def D_def)
    also have "\<dots> \<le> page_round (file_size s1)" by (rule page_round_ge)
    finally have "128 + 4 * (C * D) \<le> page_round (file_size s1)" .
    then show ?thesis using True gw(1-5,7) by (simp add: C_def)
  qed
  then have mi1: "mapping_inv s1" and cnt1: "hdr_count s1 = hdr_count s"
    and dim1: "hdr_dim s1 = hdr_dim s"
    and cap1: "hdr_capacity s1 =
      (if hdr_capacity s \<le> hdr_count s then hdr_capacity s * 2 else hdr_capacity s)"
    and acc1: "128 + 4 * (C * D) \<le> page_round (file_size s1)"
    and fs1: "file_size s1 = (if hdr_capacity s \<le> hdr_count s
           then 128 + 8 * (unat (hdr_capacity s) * unat (hdr_dim s)) else file_size s)"
    and rows1: "\<And>r. r < C \<Longrightarrow> row_bytes s1 r = row_bytes s r"
    by blast+
  define dst where "dst = 128 + 4 * (C * D)"
  define src where "src = concat (map bytes_of_u32 v)"
  have lsrc: "length src = 4 * D" by (simp add: src_def lv D_def)
  have lv1: "length v = unat (hdr_dim s1)" using lv by (simp add: dim1)
  have acc1': "128 + 4 * (unat (hdr_count s1) * unat (hdr_dim s1)) \<le> page_round (file_size s1)"
    using acc1 by (simp add: cnt1 dim1 C_def D_def)
  note sv = store_vector_Inr [OF mi1 acc1' lv1 small st, unfolded cnt1 dim1, folded C_def D_def]
  have fit: "dst + length src \<le> length (memory s1)"
    using sv(1) by (simp add: dst_def lsrc length_memory [OF mi1])
  have M': "memory s' = poke 8 (bytes_of_u64 (hdr_count s + 1)) (poke dst src (memory s1))"
    using sv(2) by (simp add: dst_def src_def)
  have dst128: "128 \<le> dst" by (simp add: dst_def)
  note sm = stored_memory [OF M' length_bytes_of_u64 dst128 fit]
  show "hdr_count s' = hdr_count s + 1" by (simp add: hdr_count_def sm(2))
  have "peek 16 8 (memory s') = peek 16 8 (memory s1)"
    using dst128 by (intro sm(3)) simp_all
  then show d': "hdr_dim s' = hdr_dim s" using dim1 by (simp add: hdr_dim_def)
  have "peek 24 8 (memory s') = peek 24 8 (memory s1)"
    using dst128 by (intro sm(3)) simp_all
  then show "hdr_capacity s' =
      (if hdr_capacity s \<le> hdr_count s then hdr_capacity s * 2 else hdr_capacity s)"
    using cap1 by (simp add: hdr_capacity_def)
  have "row_bytes s' C = peek dst (length src) (memory s')"
    by (simp add: row_bytes_def d' sizeof_SlabHeader_def dst_def D_def lsrc)
  then show "row_bytes s' (unat (hdr_count s)) = concat (map bytes_of_u32 v)"
    using sm(4) by (simp add: C_def src_def)
  show "row_bytes s' r = row_bytes s r" if r: "r < unat (hdr_count s)" for r
  proof -
    have "Suc r \<le> C" using r by (simp add: C_def)
    then have "Suc r * D \<le> C * D" by (rule mult_le_mono1)
    then have le: "128 + 4 * (r * D) + 4 * D \<le> dst" by (simp add: dst_def)
    have "peek (128 + 4 * (r * D)) (4 * D) (memory s') = peek (128 + 4 * (r * D)) (4 * D) (memory s1)"
      using le by (intro sm(3)) simp_all
    then have "row_bytes s' r = row_bytes s1 r"
      by (simp add: row_bytes_def d' dim1 sizeof_SlabHeader_def D_def)
    then show ?thesis using rows1 [of r] r by (simp add: C_def)
  qed
  show "mapping_inv s'" by (rule sv(3))
  show "128 + 4 * ((unat (hdr_count s) + 1) * unat (hdr_dim s)) \<le> page_round (file_size s')"
    using sv(1) by (simp add: sv(4) C_def D_def algebra_simps)
  show "file_size s' =
          (if hdr_capacity s \<le> hdr_count s
           then 128 + 8 * (unat (hdr_capacity s) * unat (hdr_dim s)) else file_size s)"
    using fs1 by (simp add: sv(4))
qed

lemma add_vector_slab_inv:
  assumes inv: "slab_inv s" and lv: "length v = unat (hdr_dim s)"
    and small: "4 * length v < 2 ^ 64" and add: "add_vector s v = Inr s'"
  shows "slab_inv s'"
    and "holds_capacity s \<Longrightarrow> holds_capacity s'"
    and "hdr_dim s \<noteq> 0 \<Longrightarrow> unat (hdr_count s') = unat (hdr_count s) + 1"
    and "hdr_dim s \<noteq> 0 \<Longrightarrow> hdr_capacity s \<le> hdr_count s \<Longrightarrow>
           unat (hdr_capacity s') = 2 * unat (hdr_capacity s)"
proof -
  define C where "C = unat (hdr_count s)"
  define D where "D = unat (hdr_dim s)"
  define K where "K = unat (hdr_capacity s)"
  note sr = slab_inv_rows [OF inv]
  note av = add_vector_Inr [OF inv lv small add]
  note pg' = mapping_inv_pages [OF av(6)]
  have next_count: "unat (hdr_count s') = C + 1" if "hdr_dim s \<noteq> 0"
  proof -
    have "D \<noteq> 0" using that by (simp add: D_def unat_eq_zero)
    then have "C + 1 \<le> (C + 1) * D" by (cases D) simp_all
    moreover have "(C + 1) * D < 2 ^ 61" using av(7) pg'(2) by (simp add: C_def D_def)
    ultimately have "C + 1 < 2 ^ 61" by (rule le_less_trans)
    then have "unat (hdr_count s) + 1 < 2 ^ 64" by (simp add: C_def)
    then show ?thesis using av(1) by (simp add: unat_Suc_word C_def)
  qed
  then show "hdr_dim s \<noteq> 0 \<Longrightarrow> unat (hdr_count s') = unat (hdr_count s) + 1"
    by (simp add: C_def)
  have doubled: "unat (hdr_capacity s') = 2 * K \<and> C = K \<and> 0 < K"
    if nz: "hdr_dim s \<noteq> 0" and full: "hdr_capacity s \<le> hdr_count s"
  proof -
    note hc = sr(3) [OF full]
    note rows = holds_capacity_rows [OF sr(1) hc]
    from hc nz have "hdr_count s \<le> hdr_capacity s" "0 < hdr_capacity s"
      by (auto simp: holds_capacity_def)
    with full have "hdr_count s = hdr_capacity s" "0 < K"
      by (auto simp: K_def word_less_nat_alt)
    then show ?thesis
      using doubled_size(2) [OF rows(2) nz] av(3) full by (simp add: K_def C_def)
  qed
  then show "hdr_dim s \<noteq> 0 \<Longrightarrow> hdr_capacity s \<le> hdr_count s \<Longrightarrow>
           unat (hdr_capacity s') = 2 * unat (hdr_capacity s)"
    by (simp add: K_def)
  have keep: "holds_capacity s'" if hc: "holds_capacity s"
  proof (cases "hdr_dim s = 0")
    case True
    note rows = holds_capacity_rows [OF sr(1) hc]
    have "128 \<le> file_size s'" using av(8) rows(3) by simp
    then show ?thesis using True av(2) by (simp add: holds_capacity_def sizeof_SlabHeader_def)
  next
    case False
    note rows = holds_capacity_rows [OF sr(1) hc]
    from hc False have le: "hdr_count s \<le> hdr_capacity s" and pos: "0 < hdr_capacity s"
      by (auto simp: holds_capacity_def)
    show ?thesis
    proof (cases "hdr_capacity s \<le> hdr_count s")
      case True
      from doubled [OF False True] have d: "unat (hdr_capacity s') = 2 * K" "C = K" "0 < K"
        by simp_all
      have "unat (hdr_count s') \<le> unat (hdr_capacity s')"
        using next_count [OF False] d by simp
      moreover have "0 < unat (hdr_capacity s')" using d by simp
      moreover have "128 + 4 * (unat (hdr_capacity s') * D) \<le> file_size s'"
        using av(8) True d(1) by (simp add: K_def D_def)
      ultimately show ?thesis
        using av(2) by (simp add: holds_capacity_def sizeof_SlabHeader_def word_le_nat_alt
            word_less_nat_alt D_def)
    next
      case nf: False
      then have "C < K" by (simp add: C_def K_def word_le_nat_alt)
      then have "unat (hdr_count s') \<le> K" using next_count [OF False] by simp
      moreover have "hdr_capacity s' = hdr_capacity s" using av(3) nf by simp
      moreover have "file_size s' = file_size s" using av(8) nf by simp
      ultimately show ?thesis
        using hc av(2) pos by (simp add: holds_capacity_def word_le_nat_alt K_def)
    qed
  qed
  then show "holds_capacity s \<Longrightarrow> holds_capacity s'" .
  show "slab_inv s'"
  proof (cases "holds_capacity s")
    case True
    then show ?thesis using keep av(6) by (simp add: slab_inv_def)
  next
    case False
    with inv have lt: "hdr_count s < hdr_capacity s"
      and short: "page_round (file_size s) < 128 + 4 * (K * D)"
      by (auto simp: slab_inv_def sizeof_SlabHeader_def K_def D_def)
    have nf: "\<not> hdr_capacity s \<le> hdr_count s" using lt by simp
    have fs: "file_size s' = file_size s" and cap: "hdr_capacity s' = hdr_capacity s"
      using av(3,8) nf by simp_all
    have room: "128 + 4 * ((C + 1) * D) \<le> page_round (file_size s)"
      using av(7) by (simp add: fs C_def D_def)
    have "(C + 1) * D < K * D" using room short by simp
    then have ck: "C + 1 < K" using mult_less_cancel2 [of "C + 1" D K] by blast
    then have "unat (hdr_count s) + 1 < 2 ^ 64"
      using unsigned_less [of "hdr_capacity s", where 'a = nat] by (simp add: C_def K_def)
    then have "unat (hdr_count s') = C + 1" using av(1) by (simp add: unat_Suc_word C_def)
    then have "hdr_count s' < hdr_capacity s'"
      using ck by (simp add: word_less_nat_alt cap K_def)
    then show ?thesis
      using av(6) room short \<open>unat (hdr_count s') = C + 1\<close>
      by (simp add: slab_inv_def sizeof_SlabHeader_def fs cap av(2) K_def D_def)
  qed
qed

lemma holds_capacity_small:
  assumes mi: "mapping_inv s" and hc: "holds_capacity s" and lv: "length v = unat (hdr_dim s)"
  shows "4 * length v < 2 ^ 64"
proof (cases "hdr_dim s = 0")
  case True
  then show ?thesis using lv by simp
next
  case False
  note rows = holds_capacity_rows [OF mi hc]
  from hc False have "0 < hdr_capacity s" by (auto simp: holds_capacity_def)
  then have "0 < unat (hdr_capacity s)" by (simp add: word_less_nat_alt)
  then have "unat (hdr_dim s) \<le> unat (hdr_capacity s) * unat (hdr_dim s)"
    by (cases "unat (hdr_capacity s)") simp_all
  moreover have "unat (hdr_capacity s) * unat (hdr_dim s) < 2 ^ 61" using rows(2) by simp
  ultimately have "unat (hdr_dim s) < 2 ^ 61" by (rule le_less_trans)
  then show ?thesis using lv by simp
qed

lemma holds_capacity_room:
  assumes mi: "mapping_inv s" and hc: "holds_capacity s"
    and nf: "\<not> hdr_capacity s \<le> hdr_count s"
  shows "128 + 4 * ((unat (hdr_count s) + 1) * unat (hdr_dim s)) \<le> page_round (file_size s)"
proof -
  define C where "C = unat (hdr_count s)"
  define D where "D = unat (hdr_dim s)"
  define K where "K = unat (hdr_capacity s)"
  note pg = mapping_inv_pages [OF mi]
  have "C < K" using nf by (simp add: C_def K_def word_le_nat_alt)
  then have "Suc C \<le> K" by simp
  then have "Suc C * D \<le> K * D" by (rule mult_le_mono1)
  moreover have "128 + 4 * (K * D) \<le> file_size s"
    using hc by (simp add: holds_capacity_def sizeof_SlabHeader_def K_def D_def)
  ultimately have "128 + 4 * ((C + 1) * D) \<le> file_size s" by simp
  then show ?thesis using pg(3) unfolding C_def D_def by (rule order_trans)
qed

lemma add_vector_returns_room:
  assumes inv: "slab_inv s" and lv: "length v = unat (hdr_dim s)"
    and small: "4 * length v < 2 ^ 64"
    and cond: "if hdr_capacity s \<le> hdr_count s
       then 128 + 8 * (unat (hdr_capacity s) * unat (hdr_dim s)) < 2 ^ 63
       else 128 + 4 * ((unat (hdr_count s) + 1) * unat (hdr_dim s)) \<le> page_round (file_size s)"
  shows "\<exists>s'. add_vector s v = Inr s'"
proof -
  define C where "C = unat (hdr_count s)"
  define D where "D = unat (hdr_dim s)"
  define K where "K = unat (hdr_capacity s)"
  note sr = slab_inv_rows [OF inv]
  note pg = mapping_inv_pages [OF sr(1)]
  have ml: "mapped_len s = page_round (file_size s)" using sr(1) by (rule mapped_len_inv)
  show ?thesis
  proof (cases "hdr_capacity s \<le> hdr_count s")
    case False
    then have "128 + 4 * ((C + 1) * D) \<le> page_round (file_size s)"
      using cond by (simp add: C_def D_def)
    then have "128 + 4 * (C * D) + 4 * D \<le> page_round (file_size s)" by simp
    then have "\<exists>s'. store_vector s v = Inr s'"
      using sr(1) lv small unfolding C_def D_def by (intro store_vector_returns)
    then show ?thesis
      using False pg(1) by (simp add: add_vector_def ml sizeof_SlabHeader_def)
  next
    case True
    note hc = sr(3) [OF True]
    note rows = holds_capacity_rows [OF sr(1) hc]
    have nb: "unat (128 + hdr_capacity s * 2 * 4 * hdr_dim s) = 128 + 8 * (K * D)"
      using doubled_size(1) [OF rows(2)] by (simp add: K_def D_def)
    have "128 + 8 * (K * D) < 2 ^ 63" using cond True by (simp add: K_def D_def)
    then have "unat (128 + hdr_capacity s * 2 * 4 * hdr_dim s) \<noteq> 0"
      and "unat (128 + hdr_capacity s * 2 * 4 * hdr_dim s) < 2 ^ 63"
      unfolding nb by simp_all
    then have "\<exists>s1. grow_file s (hdr_capacity s * 2) = Inr s1" by (rule grow_file_returns)
    then obtain s1 where g: "grow_file s (hdr_capacity s * 2) = Inr s1" by blast
    note gw = grow_when_full [OF sr(1) hc True g]
    have "128 + 4 * (unat (hdr_count s1) * unat (hdr_dim s1)) + 4 * unat (hdr_dim s1)
        \<le> file_size s1"
      using gw(6) by (simp add: gw(2,3))
    also have "\<dots> \<le> page_round (file_size s1)" by (rule page_round_ge)
    finally have room: "128 + 4 * (unat (hdr_count s1) * unat (hdr_dim s1)) + 4 * unat (hdr_dim s1)
        \<le> page_round (file_size s1)" .
    have lv1: "length v = unat (hdr_dim s1)" using lv by (simp add: gw(3))
    have "\<exists>s'. store_vector s1 v = Inr s'"
      using gw(1) lv1 small room by (rule store_vector_returns)
    then show ?thesis
      using True pg(1) g by (simp add: add_vector_def ml sizeof_SlabHeader_def)
  qed
qed

lemma add_vector_returns:
  assumes inv: "slab_inv s" and hc: "holds_capacity s" and lv: "length v = unat (hdr_dim s)"
    and off_t: "hdr_capacity s \<le> hdr_count s \<longrightarrow>
       128 + 8 * (unat (hdr_capacity s) * unat (hdr_dim s)) < 2 ^ 63"
  shows "\<exists>s'. add_vector s v = Inr s'"
proof -
  note sr = slab_inv_rows [OF inv]
  note small = holds_capacity_small [OF sr(1) hc lv]
  have "if hdr_capacity s \<le> hdr_count s
       then 128 + 8 * (unat (hdr_capacity s) * unat (hdr_dim s)) < 2 ^ 63
       else 128 + 4 * ((unat (hdr_count s) + 1) * unat (hdr_dim s)) \<le> page_round (file_size s)"
    using off_t holds_capacity_room [OF sr(1) hc] by simp
  with inv lv small show ?thesis by (rule add_vector_returns_room)
qed

lemma add_vector_too_big:
  assumes inv: "slab_inv s" and full: "hdr_capacity s \<le> hdr_count s"
    and big: "2 ^ 63 \<le> 128 + 8 * (unat (hdr_capacity s) * unat (hdr_dim s))"
  shows "add_vector s v = Inl ftruncate_failed"
proof -
  note sr = slab_inv_rows [OF inv]
  note pg = mapping_inv_pages [OF sr(1)]
  note rows = holds_capacity_rows [OF sr(1) sr(3) [OF full]]
  have ml: "mapped_len s = page_round (file_size s)" using sr(1) by (rule mapped_len_inv)
  have "2 ^ 63 \<le> unat (128 + hdr_capacity s * 2 * 4 * hdr_dim s)"
    using doubled_size(1) [OF rows(2)] big by simp
  then have "grow_file s (hdr_capacity s * 2) = Inl ftruncate_failed" by (rule grow_file_fails)
  then show ?thesis
    using full pg(1) by (simp add: add_vector_def ml sizeof_SlabHeader_def)
qed

lemma add_vector_returns_iff:
  assumes inv: "slab_inv s" and lv: "length v = unat (hdr_dim s)"
    and small: "4 * length v < 2 ^ 64"
  shows "(\<exists>s'. add_vector s v = Inr s') \<longleftrightarrow>
     (if hdr_capacity s \<le> hdr_count s
      then 128 + 8 * (unat (hdr_capacity s) * unat (hdr_dim s)) < 2 ^ 63
      else 128 + 4 * ((unat (hdr_count s) + 1) * unat (hdr_dim s)) \<le> page_round (file_size s))"
proof
  assume "\<exists>s'. add_vector s v = Inr s'"
  then obtain s' where add: "add_vector s v = Inr s'" by blast
  note av = add_vector_Inr [OF inv lv small add]
  show "if hdr_capacity s \<le> hdr_count s
      then 128 + 8 * (unat (hdr_capacity s) * unat (hdr_dim s)) < 2 ^ 63
      else 128 + 4 * ((unat (hdr_count s) + 1) * unat (hdr_dim s)) \<le> page_round (file_size s)"
  proof (cases "hdr_capacity s \<le> hdr_count s")
    case True
    have "\<not> 2 ^ 63 \<le> 128 + 8 * (unat (hdr_capacity s) * unat (hdr_dim s))"
    proof
      assume "2 ^ 63 \<le> 128 + 8 * (unat (hdr_capacity s) * unat (hdr_dim s))"
      with inv True have "add_vector s v = Inl ftruncate_failed" by (rule add_vector_too_big)
      with add show False by simp
    qed
    then show ?thesis using True by simp
  next
    case False
    then have "file_size s' = file_size s" using av(8) by simp
    then show ?thesis using False av(7) by simp
  qed
next
  assume "if hdr_capacity s \<le> hdr_count s
      then 128 + 8 * (unat (hdr_capacity s) * unat (hdr_dim s)) < 2 ^ 63
      else 128 + 4 * ((unat (hdr_count s) + 1) * unat (hdr_dim s)) \<le> page_round (file_size s)"
  with inv lv small show "\<exists>s'. add_vector s v = Inr s'" by (rule add_vector_returns_room)
qed

subsection \<open>Creation and the states reached from it\<close>

lemma mk_slab_fields:
  assumes "0 < sz" and "sz < 2 ^ 63"
  shows "mapping_inv (mk_slab sz cnt d cap)"
    and "file_size (mk_slab sz cnt d cap) = sz"
    and "hdr_magic (mk_slab sz cnt d cap) = 0x26872687"
    and "hdr_count (mk_slab sz cnt d cap) = cnt"
    and "hdr_dim (mk_slab sz cnt d cap) = d"
    and "hdr_capacity (mk_slab sz cnt d cap) = cap"
proof -
  define s0 where "s0 = \<lparr>file_content = replicate sz 0,
    page_tail = replicate (page_round sz - sz) 0, file_size = sz\<rparr>"
  define M where "M = memory s0"
  have pr: "4096 \<le> page_round sz" using assms(1) by (rule page_round_pos)
  have m0: "mapping_inv s0" using assms by (simp add: s0_def mapping_inv_def)
  have len: "length M = page_round sz" using length_memory [OF m0] by (simp add: M_def s0_def)
  have mem: "memory (mk_slab sz cnt d cap) =
      poke 24 (bytes_of_u64 cap) (poke 16 (bytes_of_u64 d) (poke 8 (bytes_of_u64 cnt)
        (poke 0 (bytes_of_u32 0x26872687) M)))"
    by (simp add: mk_slab_def set_capacity_def set_dim_def set_count_def set_magic_def
        M_def s0_def)
  show "file_size (mk_slab sz cnt d cap) = sz"
    by (simp add: mk_slab_def set_capacity_def set_dim_def set_count_def set_magic_def)
  have m1: "mapping_inv (set_magic s0 0x26872687)"
    unfolding set_magic_def using m0 by (rule mapping_inv_write) (use pr in \<open>simp add: s0_def\<close>)
  have m2: "mapping_inv (set_count (set_magic s0 0x26872687) cnt)"
    unfolding set_count_def using m1
    by (rule mapping_inv_write) (use pr in \<open>simp add: s0_def set_magic_def\<close>)
  have m3: "mapping_inv (set_dim (set_count (set_magic s0 0x26872687) cnt) d)"
    unfolding set_dim_def using m2
    by (rule mapping_inv_write) (use pr in \<open>simp add: s0_def set_magic_def set_count_def\<close>)
  have "mapping_inv (set_capacity (set_dim (set_count (set_magic s0 0x26872687) cnt) d) cap)"
    unfolding set_capacity_def using m3
    by (rule mapping_inv_write)
      (use pr in \<open>simp add: s0_def set_magic_def set_count_def set_dim_def\<close>)
  then show "mapping_inv (mk_slab sz cnt d cap)" by (simp add: mk_slab_def s0_def)
  show "hdr_magic (mk_slab sz cnt d cap) = 0x26872687"
    using pr by (simp add: hdr_magic_def mem len peek_poke_same peek_poke_before)
  show "hdr_count (mk_slab sz cnt d cap) = cnt"
    using pr by (simp add: hdr_count_def mem len peek_poke_same peek_poke_before)
  show "hdr_dim (mk_slab sz cnt d cap) = d"
    using pr by (simp add: hdr_dim_def mem len peek_poke_same peek_poke_before)
  show "hdr_capacity (mk_slab sz cnt d cap) = cap"
    using pr by (simp add: hdr_capacity_def mem len peek_poke_same)
qed

lemma MatrixSlab_ctor_new:
  "MatrixSlab_ctor None d =
     (let sz = unat (128 + d * 4 * INITIAL_CAPACITY) in
      if sz = 0 \<or> 2 ^ 63 \<le> sz then Inl mmap_failed
      else Inr (mk_slab sz 0 d INITIAL_CAPACITY))"
  by (simp add: MatrixSlab_ctor_def Let_def ftruncate_def map_file_def mk_slab_def)

lemma created_size:
  "unat (128 + d * 4 * INITIAL_CAPACITY) = (128 + 4000 * unat (d :: u64)) mod 2 ^ 64"
proof -
  have "unat (128 + d * 4000) = (128 + unat (d * 4000)) mod 2 ^ 64"
    by (simp add: unat_word_ariths)
  also have "unat (d * 4000) = (unat d * 4000) mod 2 ^ 64"
    by (simp add: unat_word_ariths)
  also have "(128 + (unat d * 4000) mod 2 ^ 64) mod 2 ^ 64 = (128 + unat d * 4000) mod 2 ^ 64"
    by (rule mod_add_right_eq)
  finally show ?thesis by (simp add: INITIAL_CAPACITY_def mult.commute)
qed

lemma created_slab:
  assumes "MatrixSlab_ctor None d = Inr s"
  shows "slab_inv s" and "hdr_dim s = d" and "hdr_count s = 0"
    and "hdr_capacity s = INITIAL_CAPACITY"
    and "128 + 4000 * unat d < 2 ^ 64 \<Longrightarrow> holds_capacity s"
proof -
  define sz where "sz = unat (128 + d * 4 * INITIAL_CAPACITY)"
  have "0 < sz \<and> sz < 2 ^ 63 \<and> s = mk_slab sz 0 d INITIAL_CAPACITY"
  proof (cases "sz = 0 \<or> 2 ^ 63 \<le> sz")
    case True
    then have "MatrixSlab_ctor None d = Inl mmap_failed"
      unfolding MatrixSlab_ctor_new Let_def sz_def by (rule if_P)
    then show ?thesis using assms by simp
  next
    case False
    then have "MatrixSlab_ctor None d = Inr (mk_slab sz 0 d INITIAL_CAPACITY)"
      unfolding MatrixSlab_ctor_new Let_def sz_def by (rule if_not_P)
    then show ?thesis using assms False by simp
  qed
  then have sz: "0 < sz" "sz < 2 ^ 63" and s: "s = mk_slab sz 0 d INITIAL_CAPACITY"
    by blast+
  note f = mk_slab_fields [OF sz, of 0 d INITIAL_CAPACITY]
  have mi: "mapping_inv s" and fs: "file_size s = sz" unfolding s by (rule f)+
  show dim: "hdr_dim s = d" and cnt: "hdr_count s = 0"
    and cap: "hdr_capacity s = INITIAL_CAPACITY"
    unfolding s by (rule f)+
  note pg = mapping_inv_pages [OF mi]
  have k: "unat (hdr_capacity s) = 1000" by (simp add: cap INITIAL_CAPACITY_def)
  have szm: "sz = (128 + 4000 * unat d) mod 2 ^ 64" unfolding sz_def by (rule created_size)
  have hc: "holds_capacity s" if "128 + 4000 * unat d < 2 ^ 64"
  proof -
    have "128 + 4 * (1000 * unat d) \<le> sz" using that by (simp add: szm)
    moreover have "0 < hdr_capacity s" by (simp add: cap INITIAL_CAPACITY_def)
    ultimately show ?thesis
      by (simp add: holds_capacity_def sizeof_SlabHeader_def fs k dim cnt)
  qed
  then show "128 + 4000 * unat d < 2 ^ 64 \<Longrightarrow> holds_capacity s" .
  show "slab_inv s"
  proof (cases "128 + 4000 * unat d < 2 ^ 64")
    case True
    then show ?thesis using hc mi by (simp add: slab_inv_def)
  next
    case False
    then have "page_round (file_size s) < 128 + 4 * (1000 * unat d)" using pg(2) by simp
    moreover have "hdr_count s < hdr_capacity s" by (simp add: cnt cap INITIAL_CAPACITY_def)
    moreover have "128 \<le> page_round (file_size s)" using pg(1) by simp
    ultimately show ?thesis
      using mi by (simp add: slab_inv_def sizeof_SlabHeader_def k dim cnt)
  qed
qed

lemma slab_reachable_inv:
  "slab_reachable d s \<Longrightarrow>
   slab_inv s \<and> hdr_dim s = d \<and>
   (d \<noteq> 0 \<longrightarrow> hdr_count s \<le> hdr_capacity s \<and> INITIAL_CAPACITY \<le> hdr_capacity s)"
proof (induction rule: slab_reachable.induct)
  case (created dimension s)
  then show ?case using created_slab(1-4) [OF created] by simp
next
  case (appended dimension s v s')
  then have inv: "slab_inv s" and d: "hdr_dim s = dimension" by simp_all
  note av = add_vector_Inr [OF inv appended(2,3,4)]
  note ai = add_vector_slab_inv [OF inv appended(2,3,4)]
  have "hdr_count s' \<le> hdr_capacity s' \<and> INITIAL_CAPACITY \<le> hdr_capacity s'"
    if nz: "dimension \<noteq> 0"
  proof -
    from appended.IH nz have big: "INITIAL_CAPACITY \<le> hdr_capacity s" by simp
    have nz': "hdr_dim s' \<noteq> 0" using nz d av(2) by simp
    have "holds_capacity s' \<or> hdr_count s' < hdr_capacity s'"
      using ai(1) by (auto simp: slab_inv_def)
    then have le: "hdr_count s' \<le> hdr_capacity s'"
      using nz' by (auto simp: holds_capacity_def)
    have "unat (hdr_capacity s) \<le> unat (hdr_capacity s')"
    proof (cases "hdr_capacity s \<le> hdr_count s")
      case True
      then show ?thesis using ai(4) nz d by simp
    next
      case False
      then show ?thesis using av(3) by simp
    qed
    then have "INITIAL_CAPACITY \<le> hdr_capacity s'"
      using big by (simp add: word_le_nat_alt)
    with le show ?thesis by simp
  qed
  then show ?case using ai(1) av(2) d by simp
qed

lemma slab_reachable_holds_capacity:
  "slab_reachable d s \<Longrightarrow> 128 + 4000 * unat d < 2 ^ 64 \<Longrightarrow> holds_capacity s"
proof (induction rule: slab_reachable.induct)
  case (created dimension s)
  then show ?case using created_slab(5) by blast
next
  case (appended dimension s v s')
  from slab_reachable_inv [OF appended(1)] have inv: "slab_inv s" by simp
  have "holds_capacity s" using appended by simp
  with add_vector_slab_inv(2) [OF inv appended(2,3,4)] show ?case .
qed

lemma le_nat_replicate_0 [simp]: "le_nat (replicate n 0) = 0"
  by (induction n) simp_all

lemma slab_new4_ctor: "MatrixSlab_ctor None 4 = Inr slab_new4"
  by (simp add: MatrixSlab_ctor_new INITIAL_CAPACITY_def slab_new4_def)

lemma slab_new4_fields:
  "mapping_inv slab_new4" "file_size slab_new4 = 16128"
  "hdr_count slab_new4 = 0" "hdr_dim slab_new4 = 4" "hdr_capacity slab_new4 = 1000"
  by (simp_all add: slab_new4_def mk_slab_fields)

lemma slab_new4_inv: "slab_inv slab_new4" "holds_capacity slab_new4"
  using created_slab(1,5) [OF slab_new4_ctor] by simp_all

lemma dim4_state_start: "dim4_state 0 slab_new4"
  using slab_new4_ctor [THEN slab_reachable.created]
  by (simp add: dim4_state_def slab_new4_inv slab_new4_fields)

lemma dim4_state_step:
  assumes st: "dim4_state n s" and n: "n < 1000"
  shows "\<exists>s'. add_vector s vec4 = Inr s' \<and> dim4_state (Suc n) s'"
proof -
  from st have r: "slab_reachable 4 s" and inv: "slab_inv s" and hc: "holds_capacity s"
    and d: "hdr_dim s = 4" and c: "hdr_count s = of_nat n" and k: "hdr_capacity s = 1000"
    by (simp_all add: dim4_state_def)
  have lv: "length vec4 = unat (hdr_dim s)" by (simp add: d vec4_def)
  have small: "4 * length vec4 < (2 :: nat) ^ 64" by (simp add: vec4_def)
  have "n < 2 ^ 64" using n by simp
  then have un: "unat (of_nat n :: u64) = n" by (simp add: unat_of_nat)
  have nf: "\<not> hdr_capacity s \<le> hdr_count s"
    using n by (simp add: word_le_nat_alt c k un)
  then have "\<exists>s'. add_vector s vec4 = Inr s'"
    using inv hc lv by (intro add_vector_returns) simp_all
  then obtain s' where add: "add_vector s vec4 = Inr s'" by blast
  note av = add_vector_Inr [OF inv lv small add]
  note ai = add_vector_slab_inv [OF inv lv small add]
  have r': "slab_reachable 4 s'" using r lv small add by (rule slab_reachable.appended)
  have "hdr_count s' = of_nat (Suc n)" by (simp add: av(1) c)
  moreover have "hdr_capacity s' = 1000" using av(3) nf k by simp
  ultimately show ?thesis
    using add r' ai(1) ai(2) [OF hc] av(2) d by (simp add: dim4_state_def)
qed

lemma dim4_state_reached:
  "n \<le> 1000 \<Longrightarrow> \<exists>s. append_times n vec4 slab_new4 = Inr s \<and> dim4_state n s"
proof (induction n)
  case 0
  then show ?case using dim4_state_start by simp
next
  case (Suc n)
  then obtain s where "append_times n vec4 slab_new4 = Inr s" and "dim4_state n s" by auto
  moreover from Suc.prems have "n < 1000" by simp
  ultimately show ?case using dim4_state_step [of n s] by auto
qed

subsection \<open>Opening a file\<close>

text \<open>
  Claim C1, as amended. The constructor never reads the header of an existing file:
  every existing file that is not empty, and whose length an \<open>off_t\<close> holds, is mapped at
  its length and the open succeeds, whatever its magic field holds, so the header magic
  after the open is the one of the file; \<open>mmap\<close> refuses the other lengths. Only the
  creation of a new file leaves the magic equal to \<open>0x26872687\<close>, because it writes it.
\<close>

theorem MatrixSlab_open_maps_without_check:
  "MatrixSlab_ctor (Some f) dimension =
     (if f = [] \<or> 2 ^ 63 \<le> length f then Inl mmap_failed
      else Inr \<lparr>file_content = f,
                page_tail = replicate (page_round (length f) - length f) 0,
                file_size = length f\<rparr>) \<and>
   (\<forall>s. MatrixSlab_ctor None dimension = Inr s \<longrightarrow> hdr_magic s = 0x26872687)"
proof -
  have "hdr_magic s = 0x26872687" if "MatrixSlab_ctor None dimension = Inr s" for s
    using that
    by (auto simp: MatrixSlab_ctor_new Let_def mk_slab_fields split: if_splits)
  then show ?thesis by (simp add: MatrixSlab_ctor_def map_file_def)
qed

theorem MatrixSlab_open_maps_without_check_witness:
  "MatrixSlab_ctor (Some zero_file) 4 =
     Inr \<lparr>file_content = zero_file, page_tail = replicate 3968 0, file_size = 128\<rparr> \<and>
   MatrixSlab_ctor None 4 = Inr slab_new4 \<and> hdr_magic slab_new4 = 0x26872687"
proof -
  have ne: "zero_file \<noteq> []" by (simp add: zero_file_def)
  have len: "length zero_file = 128" by (simp add: zero_file_def)
  from MatrixSlab_open_maps_without_check [of zero_file 4] ne len slab_new4_ctor
  show ?thesis by simp
qed

text \<open>
  Claim C1 as stated fails: opening an existing file of 128 zero bytes, whose magic
  field is 0, succeeds, and the header magic of the open slab is not \<open>0x26872687\<close>.
\<close>

theorem MatrixSlab_open_bad_magic_succeeds:
  "MatrixSlab_ctor (Some zero_file) 4 =
     Inr \<lparr>file_content = zero_file, page_tail = replicate 3968 0, file_size = 128\<rparr> \<and>
   hdr_magic \<lparr>file_content = zero_file, page_tail = replicate 3968 0, file_size = 128\<rparr>
     \<noteq> 0x26872687"
  by (simp add: MatrixSlab_ctor_def map_file_def zero_file_def hdr_magic_def peek_def
      memory_def u32_of_bytes_def)

subsection \<open>The round trip of an append\<close>

text \<open>
  An existing file shorter than the header is mapped as one page; the header fields read
  through the mapping are those of the file followed by zeros. On a file of 16 zero
  bytes \<open>count\<close>, \<open>dim\<close> and \<open>capacity\<close> are 0, and an append grows the file to the 128
  bytes of the header and sets the count to 1.
\<close>

lemma replicate_0_append [simp]: "replicate m (0 :: byte) @ replicate n 0 = replicate (m + n) 0"
  by (simp add: replicate_add)

lemma short_file_append:
  "MatrixSlab_ctor (Some (replicate 16 0)) 0 =
     Inr \<lparr>file_content = replicate 16 0, page_tail = replicate 4080 0, file_size = 16\<rparr> \<and>
   (\<exists>s'. add_vector \<lparr>file_content = replicate 16 0, page_tail = replicate 4080 0,
                      file_size = 16\<rparr> [] = Inr s' \<and>
      hdr_count s' = 1 \<and> file_size s' = 128 \<and> length (file_content s') = 128)"
proof -
  define s where "s = \<lparr>file_content = replicate 16 (0 :: byte),
    page_tail = replicate 4080 (0 :: byte), file_size = 16\<rparr>"
  have pr: "page_round 16 = 4096" by (simp add: page_round_def PAGE_SIZE_def)
  have mem: "memory s = replicate 4096 0" by (simp add: s_def memory_def)
  have h: "hdr_count s = 0" "hdr_dim s = 0" "hdr_capacity s = 0"
    by (simp_all add: hdr_count_def hdr_dim_def hdr_capacity_def mem peek_def u64_of_bytes_def)
  have ml: "mapped_len s = 4096" by (simp add: mapped_len_def mem) (simp add: s_def pr)
  define s1 where "s1 = \<lparr>file_content = replicate 128 (0 :: byte),
    page_tail = replicate 3968 (0 :: byte), file_size = 128\<rparr>"
  have mem1: "memory s1 = replicate 4096 0" by (simp add: s1_def memory_def)
  have g: "grow_file s 0 = Inr (set_capacity s1 0)"
    by (simp add: grow_file_def h ftruncate_def map_file_def s1_def) (simp add: s_def)
  have m1: "mapping_inv s1" by (simp add: s1_def mapping_inv_def)
  have m2: "mapping_inv (set_capacity s1 0)"
    unfolding set_capacity_def using m1 by (rule mapping_inv_write) (simp add: s1_def)
  have h2: "hdr_count (set_capacity s1 0) = 0" "hdr_dim (set_capacity s1 0) = 0"
    by (simp_all add: hdr_count_def hdr_dim_def set_capacity_def mem1 peek_poke_before)
      (simp_all add: peek_def u64_of_bytes_def)
  have fs2: "file_size (set_capacity s1 0) = 128" by (simp add: set_capacity_def s1_def)
  have "\<exists>s'. store_vector (set_capacity s1 0) [] = Inr s'"
    using m2 by (rule store_vector_returns) (simp_all add: h2 fs2)
  then obtain s' where st: "store_vector (set_capacity s1 0) [] = Inr s'" by blast
  have lv: "length ([] :: u32 list) = unat (hdr_dim (set_capacity s1 0))" by (simp add: h2)
  have acc: "128 + 4 * (unat (hdr_count (set_capacity s1 0)) * unat (hdr_dim (set_capacity s1 0)))
      \<le> page_round (file_size (set_capacity s1 0))"
    by (simp add: h2 fs2)
  have small: "4 * length ([] :: u32 list) < (2 :: nat) ^ 64" by simp
  note sv = store_vector_Inr [OF m2 acc lv small st]
  have len2: "length (memory (set_capacity s1 0)) = 4096"
    using length_memory [OF m2] by (simp add: fs2)
  have add: "add_vector s [] = Inr s'"
    by (simp add: add_vector_def ml sizeof_SlabHeader_def h g st)
  have "hdr_count s' = hdr_count (set_capacity s1 0) + 1"
    by (simp add: hdr_count_def [of s'] sv(2) peek_poke_same len2)
  then have "hdr_count s' = 1" by (simp add: h2)
  moreover have fs': "file_size s' = 128" using sv(4) by (simp add: fs2)
  moreover have "length (file_content s') = 128"
    using sv(3) fs' unfolding mapping_inv_def by simp
  moreover have "MatrixSlab_ctor (Some (replicate 16 0)) 0 = Inr s"
    by (simp add: MatrixSlab_ctor_def map_file_def s_def pr)
  ultimately show ?thesis using add unfolding s_def by blast
qed

text \<open>
  Claim C6: for every slab between two calls (\<open>slab_inv\<close>, which holds of every state
  reached from the creation of a file) and every array of \<open>dim\<close> floats, an \<open>add_vector\<close>
  that returns leaves the count one higher, row \<open>count\<close> equal to the array, and every
  row below \<open>count\<close> with the bytes it had, whether or not the call grew the file, and
  the slab is again in a state between two calls. The call returns exactly when, the
  slab being full, the length of the doubled file fits an \<open>off_t\<close>, or, the slab not
  being full, the new row ends inside the mapped pages; the latter holds whenever the
  file holds \<open>capacity\<close> rows, so an append to such a slab returns unless the growth
  is refused.
\<close>

theorem MatrixSlab_append_round_trip:
  assumes "slab_inv s" and "length v = unat (hdr_dim s)" and "4 * length v < 2 ^ 64"
  shows "(\<forall>s'. add_vector s v = Inr s' \<longrightarrow>
       hdr_count s' = hdr_count s + 1 \<and>
       get_row_data s' (unat (hdr_count s)) = v \<and>
       (\<forall>r < unat (hdr_count s). row_bytes s' r = row_bytes s r) \<and>
       slab_inv s') \<and>
    ((\<exists>s'. add_vector s v = Inr s') \<longleftrightarrow>
       (if hdr_capacity s \<le> hdr_count s
        then 128 + 8 * (unat (hdr_capacity s) * unat (hdr_dim s)) < 2 ^ 63
        else 128 + 4 * ((unat (hdr_count s) + 1) * unat (hdr_dim s))
               \<le> page_round (file_size s))) \<and>
    (holds_capacity s \<and>
       (hdr_capacity s \<le> hdr_count s \<longrightarrow>
          128 + 8 * (unat (hdr_capacity s) * unat (hdr_dim s)) < 2 ^ 63) \<longrightarrow>
     (\<exists>s'. add_vector s v = Inr s'))"
proof -
  have "hdr_count s' = hdr_count s + 1 \<and>
       get_row_data s' (unat (hdr_count s)) = v \<and>
       (\<forall>r < unat (hdr_count s). row_bytes s' r = row_bytes s r) \<and>
       slab_inv s'" if "add_vector s v = Inr s'" for s'
    using add_vector_Inr(1,4,5) [OF assms that] add_vector_slab_inv(1) [OF assms that]
    by (simp add: get_row_data_def)
  moreover note add_vector_returns_iff [OF assms]
  moreover have "\<exists>s'. add_vector s v = Inr s'"
    if "holds_capacity s \<and> (hdr_capacity s \<le> hdr_count s \<longrightarrow>
          128 + 8 * (unat (hdr_capacity s) * unat (hdr_dim s)) < 2 ^ 63)"
    using that assms(1,2) by (intro add_vector_returns) simp_all
  ultimately show ?thesis by blast
qed

theorem MatrixSlab_append_round_trip_witness:
  "MatrixSlab_ctor None 4 = Inr slab_new4 \<and>
   (\<exists>s'. add_vector slab_new4 vec4 = Inr s' \<and> hdr_count s' = 1 \<and>
      get_row_data s' 0 = vec4 \<and> hdr_capacity s' = hdr_capacity slab_new4 \<and> slab_inv s') \<and>
   (\<exists>s s'. append_times 1000 vec4 slab_new4 = Inr s \<and>
      hdr_count s = 1000 \<and> hdr_capacity s = 1000 \<and>
      add_vector s vec4 = Inr s' \<and> hdr_count s' = 1001 \<and> hdr_capacity s' = 2000 \<and>
      file_size s' = 32128 \<and>
      get_row_data s' 1000 = vec4 \<and> row_bytes s' 999 = row_bytes s 999 \<and> slab_inv s')"
proof -
  have small: "4 * length vec4 < (2 :: nat) ^ 64" by (simp add: vec4_def)
  have lv0: "length vec4 = unat (hdr_dim slab_new4)" by (simp add: slab_new4_fields vec4_def)
  note t0 = MatrixSlab_append_round_trip [OF slab_new4_inv(1) lv0 small]
  have "\<exists>s'. add_vector slab_new4 vec4 = Inr s'"
    using t0 slab_new4_inv(2) by (simp add: slab_new4_fields)
  then obtain s0 where add0: "add_vector slab_new4 vec4 = Inr s0" by blast
  have first: "hdr_count s0 = 1 \<and> get_row_data s0 0 = vec4 \<and> slab_inv s0"
    using t0 add0 by (simp add: slab_new4_fields)
  have cap0: "hdr_capacity s0 = hdr_capacity slab_new4"
    using add_vector_Inr(3) [OF slab_new4_inv(1) lv0 small add0] by (simp add: slab_new4_fields)
  obtain s where run: "append_times 1000 vec4 slab_new4 = Inr s" and st: "dim4_state 1000 s"
    using dim4_state_reached [of 1000] by auto
  from st have inv: "slab_inv s" and hc: "holds_capacity s"
    and d: "hdr_dim s = 4" and c: "hdr_count s = 1000" and k: "hdr_capacity s = 1000"
    by (simp_all add: dim4_state_def)
  have lv: "length vec4 = unat (hdr_dim s)" by (simp add: d vec4_def)
  note t = MatrixSlab_append_round_trip [OF inv lv small]
  have "\<exists>s'. add_vector s vec4 = Inr s'" using t hc by (simp add: c k d)
  then obtain s' where add: "add_vector s vec4 = Inr s'" by blast
  have last: "hdr_count s' = 1001 \<and> get_row_data s' 1000 = vec4 \<and>
      row_bytes s' 999 = row_bytes s 999 \<and> slab_inv s'"
    using t add by (simp add: c)
  have grown: "hdr_capacity s' = 2000" "file_size s' = 32128"
    using add_vector_Inr(3,8) [OF inv lv small add] by (simp_all add: c k d)
  from slab_new4_ctor add0 first cap0 run c k add last grown show ?thesis by blast
qed

subsection \<open>The capacity\<close>

text \<open>
  Claim C9, as amended to a dimension other than 0: every state reached from the
  creation of a new file by appends has \<open>count \<le> capacity\<close> and
  \<open>capacity \<ge> INITIAL_CAPACITY\<close>. An append that returns never lowers the capacity: it
  doubles it at \<open>count = capacity\<close> and leaves it as it was otherwise. An append at
  \<open>count = capacity\<close> returns whenever the length of the doubled file fits an \<open>off_t\<close>.
\<close>

theorem MatrixSlab_capacity_invariant:
  assumes "slab_reachable dimension s" and "dimension \<noteq> 0"
  shows "hdr_count s \<le> hdr_capacity s \<and> INITIAL_CAPACITY \<le> hdr_capacity s \<and>
    (\<forall>v s'. length v = unat (hdr_dim s) \<and> 4 * length v < 2 ^ 64 \<and> add_vector s v = Inr s' \<longrightarrow>
       hdr_capacity s \<le> hdr_capacity s' \<and>
       (hdr_count s = hdr_capacity s \<longrightarrow> unat (hdr_capacity s') = 2 * unat (hdr_capacity s)) \<and>
       (hdr_count s \<noteq> hdr_capacity s \<longrightarrow> hdr_capacity s' = hdr_capacity s)) \<and>
    (\<forall>v. length v = unat (hdr_dim s) \<and> hdr_count s = hdr_capacity s \<and>
         128 + 8 * (unat (hdr_capacity s) * unat (hdr_dim s)) < 2 ^ 63 \<longrightarrow>
       (\<exists>s'. add_vector s v = Inr s'))"
proof -
  from slab_reachable_inv [OF assms(1)] assms(2)
  have inv: "slab_inv s" and d: "hdr_dim s = dimension"
    and le: "hdr_count s \<le> hdr_capacity s" and big: "INITIAL_CAPACITY \<le> hdr_capacity s"
    by simp_all
  have nz: "hdr_dim s \<noteq> 0" using d assms(2) by simp
  have step: "hdr_capacity s \<le> hdr_capacity s' \<and>
       (hdr_count s = hdr_capacity s \<longrightarrow> unat (hdr_capacity s') = 2 * unat (hdr_capacity s)) \<and>
       (hdr_count s \<noteq> hdr_capacity s \<longrightarrow> hdr_capacity s' = hdr_capacity s)"
    if "length v = unat (hdr_dim s)" "4 * length v < 2 ^ 64" "add_vector s v = Inr s'" for v s'
  proof (cases "hdr_count s = hdr_capacity s")
    case True
    then have "unat (hdr_capacity s') = 2 * unat (hdr_capacity s)"
      using add_vector_slab_inv(4) [OF inv that nz] by simp
    then show ?thesis using True by (simp add: word_le_nat_alt)
  next
    case False
    then have "\<not> hdr_capacity s \<le> hdr_count s" using le by auto
    then show ?thesis using False add_vector_Inr(3) [OF inv that] by simp
  qed
  have ret: "\<exists>s'. add_vector s v = Inr s'"
    if "length v = unat (hdr_dim s)" "hdr_count s = hdr_capacity s"
      "128 + 8 * (unat (hdr_capacity s) * unat (hdr_dim s)) < 2 ^ 63" for v
  proof -
    have "hdr_capacity s \<le> hdr_count s" using that(2) by simp
    then have "holds_capacity s" using slab_inv_rows(3) [OF inv] by simp
    with inv show ?thesis using that(1,3) by (intro add_vector_returns) simp_all
  qed
  from le big step ret show ?thesis by blast
qed

theorem MatrixSlab_capacity_invariant_witness:
  "MatrixSlab_ctor None 4 = Inr slab_new4 \<and>
   (\<exists>s s'. append_times 1000 vec4 slab_new4 = Inr s \<and> slab_reachable 4 s \<and>
      hdr_count s = 1000 \<and> hdr_capacity s = 1000 \<and> INITIAL_CAPACITY \<le> hdr_capacity s \<and>
      add_vector s vec4 = Inr s' \<and> unat (hdr_capacity s') = 2000 \<and>
      hdr_capacity s \<le> hdr_capacity s')"
proof -
  have small: "4 * length vec4 < (2 :: nat) ^ 64" by (simp add: vec4_def)
  obtain s where run: "append_times 1000 vec4 slab_new4 = Inr s" and st: "dim4_state 1000 s"
    using dim4_state_reached [of 1000] by auto
  from st have r: "slab_reachable 4 s"
    and d: "hdr_dim s = 4" and c: "hdr_count s = 1000" and k: "hdr_capacity s = 1000"
    by (simp_all add: dim4_state_def)
  have lv: "length vec4 = unat (hdr_dim s)" by (simp add: d vec4_def)
  have nz: "(4 :: u64) \<noteq> 0" by simp
  note inst = MatrixSlab_capacity_invariant [OF r nz]
  have "128 + 8 * (unat (hdr_capacity s) * unat (hdr_dim s)) < (2 :: nat) ^ 63"
    by (simp add: k d)
  then have "\<exists>s'. add_vector s vec4 = Inr s'" using inst lv c k by simp
  then obtain s' where add: "add_vector s vec4 = Inr s'" by blast
  have ck: "hdr_count s = hdr_capacity s" by (simp add: c k)
  from inst lv small add ck
  have "hdr_capacity s \<le> hdr_capacity s' \<and> unat (hdr_capacity s') = 2 * unat (hdr_capacity s)"
    by blast
  then have "unat (hdr_capacity s') = 2000" "hdr_capacity s \<le> hdr_capacity s'"
    by (simp_all add: k)
  moreover have "INITIAL_CAPACITY \<le> hdr_capacity s" using inst by simp
  ultimately show ?thesis using slab_new4_ctor run r c k add by blast
qed

lemma add_vector_dim0:
  assumes inv: "slab_inv s" and d: "hdr_dim s = 0"
  shows "\<exists>s'. add_vector s [] = Inr s' \<and> slab_inv s' \<and> hdr_dim s' = 0 \<and>
    hdr_count s' = hdr_count s + 1 \<and>
    hdr_capacity s' = (if hdr_capacity s \<le> hdr_count s then hdr_capacity s * 2 else hdr_capacity s)"
proof -
  have lv: "length ([] :: u32 list) = unat (hdr_dim s)" by (simp add: d)
  have small: "4 * length ([] :: u32 list) < (2 :: nat) ^ 64" by simp
  note sr = slab_inv_rows [OF inv]
  note pg = mapping_inv_pages [OF sr(1)]
  have "\<not> page_round (file_size s) < 128" using pg(1) by simp
  then have hc: "holds_capacity s"
    using inv by (auto simp: slab_inv_def sizeof_SlabHeader_def d)
  have off_t: "hdr_capacity s \<le> hdr_count s \<longrightarrow>
      128 + 8 * (unat (hdr_capacity s) * unat (hdr_dim s)) < 2 ^ 63"
    by (simp add: d)
  obtain s' where add: "add_vector s [] = Inr s'"
    using add_vector_returns [OF inv hc lv off_t] by blast
  note av = add_vector_Inr [OF inv lv small add]
  have "slab_inv s'" using inv lv small add by (rule add_vector_slab_inv(1))
  with add av(1,2,3) d show ?thesis by simp
qed

lemma pow_bound: "j \<le> 54 \<Longrightarrow> (1000 :: nat) * 2 ^ j \<le> 18014398509481984000"
proof -
  assume "j \<le> 54"
  then have "(2 :: nat) ^ j \<le> 2 ^ 54" by (intro power_increasing) simp_all
  then show ?thesis by simp
qed

lemma slab_new0_ctor: "MatrixSlab_ctor None 0 = Inr (mk_slab 128 0 0 1000)"
  by (simp add: MatrixSlab_ctor_new INITIAL_CAPACITY_def)

lemma dim0_state_start: "dim0_state 0 (mk_slab 128 0 0 1000)"
proof -
  have "slab_reachable 0 (mk_slab 128 0 0 1000)"
    using slab_new0_ctor by (rule slab_reachable.created)
  moreover have "\<exists>j \<le> 54. unat (1000 :: u64) = 1000 * 2 ^ j \<and> (0 :: nat) \<le> 1000 * 2 ^ j \<and>
        (j = 0 \<or> 1000 * 2 ^ (j - 1) < (0 :: nat))"
    by (rule exI [of _ 0]) simp
  ultimately show ?thesis
    using created_slab(1-4) [OF slab_new0_ctor]
    by (simp add: dim0_state_def INITIAL_CAPACITY_def)
qed

lemma dim0_state_step:
  assumes st: "dim0_state n s" and n: "n < 18014398509481984000"
  shows "\<exists>s'. add_vector s [] = Inr s' \<and> dim0_state (Suc n) s'"
proof -
  from st have r: "slab_reachable 0 s" and inv: "slab_inv s" and d: "hdr_dim s = 0"
    and c: "hdr_count s = of_nat n" by (simp_all add: dim0_state_def)
  from st obtain j where j: "j \<le> 54" and cap: "unat (hdr_capacity s) = 1000 * 2 ^ j"
    and le: "n \<le> 1000 * 2 ^ j" and lo: "j = 0 \<or> 1000 * 2 ^ (j - 1) < n"
    by (auto simp: dim0_state_def)
  from add_vector_dim0 [OF inv d] obtain s' where add: "add_vector s [] = Inr s'"
    and inv': "slab_inv s'" and d': "hdr_dim s' = 0" and c': "hdr_count s' = hdr_count s + 1"
    and cap': "hdr_capacity s' =
      (if hdr_capacity s \<le> hdr_count s then hdr_capacity s * 2 else hdr_capacity s)"
    by blast
  have r': "slab_reachable 0 s'"
    using r _ _ add by (rule slab_reachable.appended) (simp_all add: d)
  have "n < 2 ^ 64" using n by simp
  then have un: "unat (of_nat n :: u64) = n" by (simp add: unat_of_nat)
  have full: "hdr_capacity s \<le> hdr_count s \<longleftrightarrow> n = 1000 * 2 ^ j"
    using le by (auto simp: word_le_nat_alt c un cap)
  have cnt: "hdr_count s' = of_nat (Suc n)" by (simp add: c' c)
  have "\<exists>j' \<le> 54. unat (hdr_capacity s') = 1000 * 2 ^ j' \<and> Suc n \<le> 1000 * 2 ^ j' \<and>
        (j' = 0 \<or> 1000 * 2 ^ (j' - 1) < Suc n)"
  proof (cases "n = 1000 * 2 ^ j")
    case False
    then have "unat (hdr_capacity s') = 1000 * 2 ^ j \<and> Suc n \<le> 1000 * 2 ^ j \<and>
        (j = 0 \<or> 1000 * 2 ^ (j - 1) < Suc n)"
      using le lo cap by (auto simp: cap' full)
    with j show ?thesis by blast
  next
    case True
    have "j \<noteq> 54"
    proof
      assume "j = 54"
      then have "n = 18014398509481984000" using True by simp
      then show False using n by simp
    qed
    then have j': "Suc j \<le> 54" using j by simp
    have b: "(1000 :: nat) * 2 ^ Suc j \<le> 18014398509481984000" using j' by (rule pow_bound)
    have "unat (hdr_capacity s) * unat (2 :: u64) < 2 ^ LENGTH(64)"
      using b by (simp add: cap)
    then have "unat (hdr_capacity s * 2) = unat (hdr_capacity s) * 2"
      by (simp only: unat_mult_lem [THEN iffD1]) simp
    then have "unat (hdr_capacity s') = 1000 * 2 ^ Suc j \<and> Suc n \<le> 1000 * 2 ^ Suc j \<and>
        (Suc j = 0 \<or> 1000 * 2 ^ (Suc j - 1) < Suc n)"
      using True by (simp add: cap' full cap)
    with j' show ?thesis by blast
  qed
  with add r' inv' d' cnt show ?thesis by (auto simp: dim0_state_def)
qed

lemma dim0_state_reached:
  "n \<le> 18014398509481984000 \<Longrightarrow>
   \<exists>s. append_times n [] (mk_slab 128 0 0 1000) = Inr s \<and> dim0_state n s"
proof (induction n)
  case 0
  then show ?case using dim0_state_start by simp
next
  case (Suc n)
  then obtain s where "append_times n [] (mk_slab 128 0 0 1000) = Inr s" and "dim0_state n s"
    by auto
  moreover from Suc.prems have "n < 18014398509481984000" by simp
  ultimately show ?case using dim0_state_step [of n s] by auto
qed

text \<open>
  Claim C9 as stated fails for the dimension 0: the file then never grows, every append
  returns, and nothing bounds the count. Creating a slab with dimension 0 and appending
  the empty array \<open>1000 * 2^54 + 1\<close> times reaches a state where the 64-bit product
  \<open>capacity * 2\<close> has wrapped: the capacity went down and is below the count.
\<close>

theorem MatrixSlab_capacity_wraps_without_rows:
  "MatrixSlab_ctor None 0 = Inr (mk_slab 128 0 0 1000) \<and>
   (case append_times 18014398509481984001 [] (mk_slab 128 0 0 1000) of
      Inl e \<Rightarrow> False
    | Inr s \<Rightarrow> slab_reachable 0 s \<and> hdr_capacity s < hdr_count s)"
proof -
  obtain s where run: "append_times 18014398509481984000 [] (mk_slab 128 0 0 1000) = Inr s"
    and st: "dim0_state 18014398509481984000 s"
    using dim0_state_reached [of 18014398509481984000] by auto
  from st have r: "slab_reachable 0 s" and inv: "slab_inv s" and d: "hdr_dim s = 0"
    and c: "hdr_count s = 18014398509481984000" by (simp_all add: dim0_state_def)
  from st obtain j where j: "j \<le> 54" and cap: "unat (hdr_capacity s) = 1000 * 2 ^ j"
    and le: "18014398509481984000 \<le> (1000 :: nat) * 2 ^ j"
    by (auto simp: dim0_state_def)
  have "(1000 :: nat) * 2 ^ j = 18014398509481984000"
    using pow_bound [OF j] le by simp
  then have "unat (hdr_capacity s) = unat (18014398509481984000 :: u64)"
    using cap by simp
  then have k: "hdr_capacity s = 18014398509481984000" by (simp only: word_unat_eq_iff)
  from add_vector_dim0 [OF inv d] obtain s' where add: "add_vector s [] = Inr s'"
    and c': "hdr_count s' = hdr_count s + 1"
    and cap': "hdr_capacity s' =
      (if hdr_capacity s \<le> hdr_count s then hdr_capacity s * 2 else hdr_capacity s)"
    by blast
  have r': "slab_reachable 0 s'"
    using r _ _ add by (rule slab_reachable.appended) (simp_all add: d)
  have lt: "hdr_capacity s' < hdr_count s'" by (simp add: c' cap' c k)
  have "(18014398509481984001 :: nat) = Suc 18014398509481984000" by simp
  then have "append_times 18014398509481984001 [] (mk_slab 128 0 0 1000) = Inr s'"
    using run add by (simp only: append_times.simps) simp
  with slab_new0_ctor r' lt show ?thesis by simp
qed

section \<open>Properties of GpuIndex\<close>

subsection \<open>Conversions and \<open>int\<close> arithmetic\<close>

lemma int_of_size_t_small: "n \<le> INT_MAX \<Longrightarrow> int_of_size_t n = int n"
proof -
  assume "n \<le> INT_MAX"
  then have "int n < 2 ^ 31" by (simp add: INT_MAX_def)
  then have "signed_take_bit 31 (int n) = int n"
    by (intro signed_take_bit_int_eq_self) simp_all
  moreover have "(word_of_nat n :: 32 word) = word_of_int (int n)" by simp
  ultimately show ?thesis
    by (simp only: int_of_size_t_def sint_sbintrunc') simp
qed

lemma int_of_size_t_range: "int_of_size_t n \<le> int INT_MAX" "- 2147483648 \<le> int_of_size_t n"
proof -
  have "sint (word_of_nat n :: 32 word) < 2 ^ (LENGTH(32) - 1)" by (rule sint_lt)
  then show "int_of_size_t n \<le> int INT_MAX" by (simp add: int_of_size_t_def INT_MAX_def)
  have "- (2 ^ (LENGTH(32) - 1)) \<le> sint (word_of_nat n :: 32 word)" by (rule sint_ge)
  then show "- 2147483648 \<le> int_of_size_t n" by (simp add: int_of_size_t_def)
qed

lemma size_t_of_int_int: "n < 2 ^ 64 \<Longrightarrow> size_t_of_int (int n) = n"
proof -
  assume "n < 2 ^ 64"
  then have "int n < 2 ^ 64" by (metis of_nat_less_iff of_nat_numeral of_nat_power)
  then have "int n mod 2 ^ 64 = int n" by simp
  then show ?thesis by (simp add: size_t_of_int_def)
qed

lemma total_pairs_small:
  assumes "n \<le> INT_MAX" and "cc * n \<le> INT_MAX"
  shows "total_pairs cc (int n) = int (cc * n)"
proof -
  have n: "size_t_of_int (int n) = n"
    using assms(1) by (intro size_t_of_int_int) (simp add: INT_MAX_def)
  have "cc * n < 2 ^ 64" using assms(2) by (simp add: INT_MAX_def)
  then have "(cc * n) mod 2 ^ 64 = cc * n" by simp
  then show ?thesis
    using assms(2) by (simp add: total_pairs_def n int_of_size_t_small)
qed

lemma total_pairs_zero [simp]: "total_pairs 0 nq = 0"
  by (simp add: total_pairs_def int_of_size_t_def)

lemma total_pairs_exact:
  assumes "n \<le> INT_MAX" and "n * cc \<le> nat (total_pairs cc (int n))"
  shows "cc * n \<le> INT_MAX" and "total_pairs cc (int n) = int (cc * n)"
proof -
  have "nat (total_pairs cc (int n)) \<le> INT_MAX"
    using int_of_size_t_range(1) [of "(cc * size_t_of_int (int n)) mod 2 ^ 64"]
    by (simp add: total_pairs_def)
  with assms(2) show le: "cc * n \<le> INT_MAX" by (simp add: mult.commute)
  show "total_pairs cc (int n) = int (cc * n)"
    using assms(1) le by (rule total_pairs_small)
qed

lemma sdiv_nonneg: "0 \<le> a \<Longrightarrow> 0 < b \<Longrightarrow> a sdiv b = a div b" for a b :: int
  by (simp add: signed_divide_int_def sgn_if)

lemma smod_nonneg: "0 \<le> a \<Longrightarrow> 0 < b \<Longrightarrow> a smod b = a mod b" for a b :: int
  by (simp add: signed_modulo_int_def sgn_if)

lemma blocks_nonpos: "tp \<le> 0 \<Longrightarrow> nat ((tp + 256 - 1) sdiv 256) = 0" for tp :: int
proof -
  assume tp: "tp \<le> 0"
  show ?thesis
  proof (cases "0 \<le> tp + 255")
    case True
    then have "(tp + 255) sdiv 256 = (tp + 255) div 256" by (intro sdiv_nonneg) simp_all
    also have "\<dots> = 0" using True tp by simp
    finally show ?thesis by (simp add: add.commute)
  next
    case False
    then have "(tp + 255) sdiv 256 \<le> 0"
      by (simp add: signed_divide_int_def sgn_if pos_imp_zdiv_nonneg_iff)
    then show ?thesis by (simp add: add.commute)
  qed
qed

lemma blocks_pos:
  assumes "0 < tp"
  shows "nat tp \<le> nat ((tp + 256 - 1) sdiv 256) * 256"
proof -
  define x where "x = tp + 255"
  have "x sdiv 256 = x div 256" using assms by (intro sdiv_nonneg) (simp_all add: x_def)
  moreover have "x div 256 * 256 + x mod 256 = x" by (rule div_mult_mod_eq)
  moreover have "x mod 256 < 256" "0 \<le> x mod 256" by simp_all
  ultimately have "tp \<le> x sdiv 256 * 256" unfolding x_def by linarith
  moreover have "0 \<le> x sdiv 256" using assms \<open>x sdiv 256 = x div 256\<close> by (simp add: x_def)
  ultimately have "nat tp \<le> nat (x sdiv 256 * 256)" by simp
  also have "\<dots> = nat (x sdiv 256) * 256" using \<open>0 \<le> x sdiv 256\<close> by (simp add: nat_mult_distrib)
  finally show ?thesis by (simp add: x_def add.commute)
qed

lemma int_fits_int: "int_fits (int x) \<longleftrightarrow> x \<le> INT_MAX"
  by (auto simp: int_fits_def INT_MAX_def)

lemma l2_kernel_nat:
  "compute_l2_dist_kernel a b (int m) (int n) idx d =
     (if m * n \<le> idx then d else d[idx := d ! idx + a ! (idx mod m) + b ! (idx div m)])"
proof (cases "m * n \<le> idx")
  case True
  then have "int m * int n \<le> int idx" by (metis of_nat_le_iff of_nat_mult)
  then show ?thesis using True by (simp add: compute_l2_dist_kernel_def)
next
  case False
  then have "\<not> int m * int n \<le> int idx" by (metis of_nat_le_iff of_nat_mult)
  moreover from False have m: "0 < m" by (cases m) simp_all
  then have "int idx smod int m = int (idx mod m)" "int idx sdiv int m = int (idx div m)"
    by (simp_all add: smod_nonneg sdiv_nonneg zmod_int zdiv_int)
  ultimately show ?thesis using False by (simp add: compute_l2_dist_kernel_def Let_def)
qed

lemma l2_thread_defined_nat:
  "l2_thread_defined a b d (int m) (int n) idx \<longleftrightarrow>
     m * n \<le> INT_MAX \<and>
     (m * n \<le> idx \<or> (idx < length d \<and> idx mod m < length a \<and> idx div m < length b))"
proof -
  have fits: "int_fits (int m * int n) \<longleftrightarrow> m * n \<le> INT_MAX"
    by (simp only: of_nat_mult [symmetric] int_fits_int)
  have le: "int m * int n \<le> int idx \<longleftrightarrow> m * n \<le> idx"
    by (metis of_nat_le_iff of_nat_mult)
  show ?thesis
  proof (cases "m = 0")
    case True
    then show ?thesis by (simp add: l2_thread_defined_def Let_def int_fits_def)
  next
    case False
    then have "int idx smod int m = int (idx mod m)" "int idx sdiv int m = int (idx div m)"
      by (simp_all add: smod_nonneg sdiv_nonneg zmod_int zdiv_int)
    then show ?thesis
      by (simp add: l2_thread_defined_def Let_def fits le)
  qed
qed

lemma norms_kernel_nat:
  "compute_norms_kernel data (int rows) (int cols) idx norms =
     (if rows \<le> idx then norms
      else norms[idx := sum_sq (take cols (drop (idx * cols) data))])"
  by (simp add: compute_norms_kernel_def)

lemma norms_thread_defined_nat:
  "norms_thread_defined data norms (int rows) (int cols) idx \<longleftrightarrow>
     rows \<le> idx \<or>
     (idx * cols \<le> INT_MAX \<and> idx * cols + cols \<le> length data \<and> idx < length norms)"
proof -
  have "int_fits (int idx * int cols) \<longleftrightarrow> idx * cols \<le> INT_MAX"
    by (simp only: of_nat_mult [symmetric] int_fits_int)
  then show ?thesis by (simp add: norms_thread_defined_def)
qed

subsection \<open>Results of one query\<close>

lemma candidates_sorted:
  fixes f :: "nat \<Rightarrow> real"
  defines "cs \<equiv> \<lambda>cc. map (\<lambda>i. (f i, i)) [0..<cc]"
  shows "length (partial_sort_front m (cs cc)) = min m cc"
    and "set (partial_sort_front m (cs cc)) \<subseteq> set (cs cc)"
    and "sorted_wrt (<) (partial_sort_front m (cs cc))"
    and "distinct (map snd (partial_sort_front m (cs cc)))"
proof -
  have snd_cs: "map snd (cs cc) = [0..<cc]"
    by (simp add: cs_def o_def)
  have "distinct (map snd (cs cc))" by (simp only: snd_cs distinct_upt)
  then have "distinct (cs cc)" and "inj_on snd (set (cs cc))"
    by (simp_all only: distinct_map)
  then have d2: "distinct (sort (cs cc))" and "inj_on snd (set (sort (cs cc)))"
    by (simp_all only: distinct_sort set_sort)
  then have d: "distinct (map snd (sort (cs cc)))" by (simp only: distinct_map)
  show "length (partial_sort_front m (cs cc)) = min m cc"
    by (simp add: partial_sort_front_def cs_def)
  show "set (partial_sort_front m (cs cc)) \<subseteq> set (cs cc)"
    using set_take_subset [of m "sort (cs cc)"] by (simp add: partial_sort_front_def)
  have "sorted_wrt (<) (sort (cs cc))"
    using d2 by (simp add: strict_sorted_iff)
  then show "sorted_wrt (<) (partial_sort_front m (cs cc))"
    by (simp add: partial_sort_front_def sorted_wrt_take)
  show "distinct (map snd (partial_sort_front m (cs cc)))"
    using d by (simp add: partial_sort_front_def take_map [symmetric] distinct_take)
qed

lemma query_results_props:
  assumes cc: "cc < 2 ^ 64"
  shows "length (query_results sc cc q k) = min (nat (k mod 2 ^ 64)) cc"
    and "sorted_wrt (\<lambda>x y. score x < score y \<or> (score x = score y \<and> result_id x < result_id y))
           (query_results sc cc q k)"
    and "distinct (map result_id (query_results sc cc q k))"
    and "\<And>e. e \<in> set (query_results sc cc q k) \<Longrightarrow>
           \<exists>i < cc. e = \<lparr>result_id = of_nat i, score = sc ! (q * cc + i)\<rparr>"
proof -
  define m where "m = min (nat (k mod 2 ^ 64)) cc"
  define ps where "ps = partial_sort_front m (map (\<lambda>i. (sc ! (q * cc + i), i)) [0..<cc])"
  note cs = candidates_sorted [of m "\<lambda>i. sc ! (q * cc + i)" cc, folded ps_def]
  have qr: "query_results sc cc q k = map (\<lambda>(s, i). \<lparr>result_id = of_nat i, score = s\<rparr>) ps"
    by (simp add: query_results_def Let_def ps_def m_def)
  have mem: "\<exists>i < cc. p = (sc ! (q * cc + i), i)" if "p \<in> set ps" for p
    using that cs(2) by auto
  have un: "unat (of_nat i :: u64) = i" if "i < cc" for i
  proof -
    have "i < 2 ^ 64" using that cc by simp
    then show ?thesis by (simp add: unat_of_nat)
  qed
  show "length (query_results sc cc q k) = min (nat (k mod 2 ^ 64)) cc"
    using cs(1) by (simp add: qr m_def)
  show "sorted_wrt (\<lambda>x y. score x < score y \<or> (score x = score y \<and> result_id x < result_id y))
           (query_results sc cc q k)"
    unfolding qr
  proof (rule sorted_wrt_map_mono [OF cs(3)])
    fix x y assume "x \<in> set ps" "y \<in> set ps" "x < y"
    then obtain i j where "i < cc" "j < cc" "x = (sc ! (q * cc + i), i)" "y = (sc ! (q * cc + j), j)"
      using mem by blast
    moreover have "(of_nat i :: u64) < of_nat j" if "i < j"
      using that un [OF \<open>i < cc\<close>] un [OF \<open>j < cc\<close>] by (simp add: word_less_nat_alt)
    ultimately show "score (case x of (s, i) \<Rightarrow> \<lparr>result_id = of_nat i, score = s\<rparr>)
        < score (case y of (s, i) \<Rightarrow> \<lparr>result_id = of_nat i, score = s\<rparr>) \<or>
        score (case x of (s, i) \<Rightarrow> \<lparr>result_id = of_nat i, score = s\<rparr>)
        = score (case y of (s, i) \<Rightarrow> \<lparr>result_id = of_nat i, score = s\<rparr>) \<and>
        result_id (case x of (s, i) \<Rightarrow> \<lparr>result_id = of_nat i, score = s\<rparr>)
        < result_id (case y of (s, i) \<Rightarrow> \<lparr>result_id = of_nat i, score = s\<rparr>)"
      using \<open>x < y\<close> by (auto simp: less_prod_def)
  qed
  have "map result_id (query_results sc cc q k) = map (\<lambda>i. of_nat i) (map snd ps)"
    by (simp add: qr o_def case_prod_unfold)
  moreover have "inj_on (\<lambda>i. of_nat i :: u64) (set (map snd ps))"
  proof (rule inj_onI)
    fix a b assume "a \<in> set (map snd ps)" "b \<in> set (map snd ps)"
      and eq: "(of_nat a :: u64) = of_nat b"
    then have "a < cc" "b < cc" using mem by fastforce+
    then have ua: "unat (of_nat a :: u64) = a" and ub: "unat (of_nat b :: u64) = b"
      using un [of a] un [of b] by blast+
    have "a = unat (of_nat a :: u64)" using ua by (rule sym)
    also have "\<dots> = unat (of_nat b :: u64)" by (rule arg_cong [OF eq])
    also have "\<dots> = b" by (rule ub)
    finally show "a = b" .
  qed
  ultimately show "distinct (map result_id (query_results sc cc q k))"
    using cs(4) by (simp only: distinct_map [of "\<lambda>i. of_nat i" "map snd ps"])
  show "\<exists>i < cc. e = \<lparr>result_id = of_nat i, score = sc ! (q * cc + i)\<rparr>"
    if "e \<in> set (query_results sc cc q k)" for e
    using that mem by (auto simp: qr)
qed

lemma query_results_empty: "query_results sc 0 q k = []"
  by (simp add: query_results_def partial_sort_front_def)

subsection \<open>Device buffers and kernels\<close>

lemma foldl_sum_sq: "foldl (\<lambda>sum val. sum + val * val) a xs = a + (\<Sum>v\<leftarrow>xs. v * v)"
  for a :: real
  by (induction xs arbitrary: a) simp_all

lemma sum_sq_sum_list: "sum_sq xs = (\<Sum>v\<leftarrow>xs. v * v)"
  by (simp add: sum_sq_def foldl_sum_sq)

lemma length_cudaMemcpy [simp]: "length (cudaMemcpy dst off src) = length dst"
  by (simp add: cudaMemcpy_def)

lemma cudaMemcpy_nth_in:
  "off + length src \<le> length dst \<Longrightarrow> i < length src \<Longrightarrow>
   cudaMemcpy dst off src ! (off + i) = src ! i"
  by (simp add: cudaMemcpy_def nth_append)

lemma cudaMemcpy_nth_below:
  "i < off \<Longrightarrow> i < length dst \<Longrightarrow> cudaMemcpy dst off src ! i = dst ! i"
  by (simp add: cudaMemcpy_def nth_append)

lemma cudaMemcpy_take_drop:
  "off + n \<le> length dst \<Longrightarrow> length src = n \<Longrightarrow>
   take n (drop off (cudaMemcpy dst off src)) = src"
  by (simp add: cudaMemcpy_def)

lemma cudaMemcpy_take_drop_below:
  "off' + n \<le> off \<Longrightarrow> off \<le> length dst \<Longrightarrow>
   take n (drop off' (cudaMemcpy dst off src)) = take n (drop off' dst)"
  by (simp add: cudaMemcpy_def take_drop)

lemma length_l2_thread [simp]:
  "length (compute_l2_dist_kernel a b m n idx d) = length d"
  by (simp add: compute_l2_dist_kernel_def Let_def)

lemma length_fold_l2 [simp]:
  "length (fold (compute_l2_dist_kernel a b m n) xs d) = length d"
  by (induction xs arbitrary: d) simp_all

lemma fold_l2_nth:
  "i < length d \<Longrightarrow>
   fold (compute_l2_dist_kernel a b (int m) (int n)) [0..<N] d ! i =
     (if i < N \<and> i < m * n then d ! i + a ! (i mod m) + b ! (i div m) else d ! i)"
proof (induction N arbitrary: i)
  case 0
  then show ?case by simp
next
  case (Suc N)
  define d' where "d' = fold (compute_l2_dist_kernel a b (int m) (int n)) [0..<N] d"
  have len: "length d' = length d" by (simp add: d'_def)
  have step: "fold (compute_l2_dist_kernel a b (int m) (int n)) [0..<Suc N] d =
      compute_l2_dist_kernel a b (int m) (int n) N d'"
    by (simp add: d'_def)
  have ih: "d' ! j = (if j < N \<and> j < m * n then d ! j + a ! (j mod m) + b ! (j div m) else d ! j)"
    if "j < length d" for j
    using Suc.IH [OF that] by (simp add: d'_def)
  show ?case
  proof (cases "i = N")
    case True
    then show ?thesis
      unfolding step using Suc.prems ih [of N] len
      by (simp add: l2_kernel_nat)
  next
    case False
    then show ?thesis
      unfolding step using Suc.prems ih [of i] len
      by (auto simp: l2_kernel_nat)
  qed
qed

lemma launch_l2_nth:
  assumes "i < m * n" and "m * n \<le> length d" and "m * n \<le> nat blocks * 256"
  shows "launch blocks 256 (compute_l2_dist_kernel a b (int m) (int n)) d ! i =
     d ! i + a ! (i mod m) + b ! (i div m)"
  using assms by (simp add: launch_def fold_l2_nth)

lemma length_norms_thread [simp]:
  "length (compute_norms_kernel data rows cols idx norms) = length norms"
  by (simp add: compute_norms_kernel_def)

lemma length_fold_norms [simp]:
  "length (fold (compute_norms_kernel data rows cols) xs norms) = length norms"
  by (induction xs arbitrary: norms) simp_all

lemma fold_norms_nth:
  "i < length norms \<Longrightarrow>
   fold (compute_norms_kernel data (int rows) (int cols)) [0..<N] norms ! i =
     (if i < N \<and> i < rows then sum_sq (take cols (drop (i * cols) data)) else norms ! i)"
proof (induction N arbitrary: i)
  case 0
  then show ?case by simp
next
  case (Suc N)
  define n' where "n' = fold (compute_norms_kernel data (int rows) (int cols)) [0..<N] norms"
  have len: "length n' = length norms" by (simp add: n'_def)
  have step: "fold (compute_norms_kernel data (int rows) (int cols)) [0..<Suc N] norms =
      compute_norms_kernel data (int rows) (int cols) N n'"
    by (simp add: n'_def)
  have ih: "n' ! i = (if i < N \<and> i < rows then sum_sq (take cols (drop (i * cols) data))
      else norms ! i)"
    using Suc.IH [OF Suc.prems] by (simp add: n'_def)
  show ?case
  proof (cases "i = N")
    case True
    then show ?thesis
      unfolding step using Suc.prems len ih by (simp add: norms_kernel_nat)
  next
    case False
    then show ?thesis
      unfolding step using Suc.prems ih len
      by (auto simp: norms_kernel_nat nth_list_update)
  qed
qed

lemma sgemm_refused_nat:
  "sgemm_refused (int m) (int n) (int k) (int k) (int k) (int m) \<longleftrightarrow> k = 0 \<or> m = 0"
  by (auto simp: sgemm_refused_def max_def)

lemma sgemm_in_bounds_nat:
  "sgemm_in_bounds (int m) (int n) (int k) A (int k) B (int k) C (int m) \<longleftrightarrow>
     m = 0 \<or> n = 0 \<or> k = 0 \<or> (m * k \<le> length A \<and> n * k \<le> length B \<and> m * n \<le> length C)"
proof (cases "m = 0 \<or> n = 0 \<or> k = 0")
  case True
  then show ?thesis by (auto simp: sgemm_in_bounds_def sgemm_refused_nat)
next
  case False
  then obtain m' n' where m: "m = Suc m'" and n: "n = Suc n'"
    by (cases m; cases n) auto
  have a: "nat (int k + (int m - 1) * int k) = m * k"
  proof -
    have "int k + (int m - 1) * int k = int (m * k)" by (simp add: m algebra_simps)
    then show ?thesis by (simp only: nat_int)
  qed
  have b: "nat (int k + (int n - 1) * int k) = n * k"
  proof -
    have "int k + (int n - 1) * int k = int (n * k)" by (simp add: n algebra_simps)
    then show ?thesis by (simp only: nat_int)
  qed
  have c: "nat (int m + (int n - 1) * int m) = m * n"
  proof -
    have "int m + (int n - 1) * int m = int (m * n)" by (simp add: n algebra_simps)
    then show ?thesis by (simp only: nat_int)
  qed
  from False show ?thesis
    by (simp add: sgemm_in_bounds_def sgemm_refused_nat a b c)
qed

lemma length_cublasSgemm_TN [simp]:
  "length (cublasSgemm_TN m n k alpha A lda B ldb beta C ldc) = length C"
  by (simp add: cublasSgemm_TN_def)

lemma gemm_nth:
  assumes "1 \<le> k" and "1 \<le> m" and "i < m" and "j < n" and "i + j * m < length C"
  shows "cublasSgemm_TN (int m) (int n) (int k) alpha A (int k) B (int k) 0 C (int m) ! (i + j * m) =
     alpha * (\<Sum>l\<leftarrow>[0..<k]. A ! (l + i * k) * B ! (l + j * k))"
  using assms by (simp add: cublasSgemm_TN_def sgemm_refused_nat Let_def)

lemma concat_nth_uniform:
  "\<forall>q \<in> set qs. length q = d \<Longrightarrow> i < length qs \<Longrightarrow> l < d \<Longrightarrow>
   concat qs ! (l + i * d) = qs ! i ! l"
proof (induction qs arbitrary: i)
  case Nil
  then show ?case by simp
next
  case (Cons q qs)
  show ?case
  proof (cases i)
    case 0
    with Cons.prems show ?thesis by (simp add: nth_append)
  next
    case (Suc i')
    with Cons.prems have "concat qs ! (l + i' * d) = qs ! i' ! l"
      by (intro Cons.IH) simp_all
    with Cons.prems Suc show ?thesis by (simp add: nth_append add.assoc)
  qed
qed

lemma length_concat_uniform:
  "\<forall>q \<in> set qs. length q = d \<Longrightarrow> length (concat qs) = length qs * d"
  by (induction qs) simp_all

lemma dot_as_index_sum:
  assumes "length x = n" and "length q = n"
  shows "(\<Sum>(a, b)\<leftarrow>zip x q. a * b) = (\<Sum>l\<leftarrow>[0..<n]. x ! l * q ! l)"
proof -
  have "map (\<lambda>(a, b). a * b) (zip x q) = map (\<lambda>l. x ! l * q ! l) [0..<n]"
    using assms by (intro nth_equalityI) simp_all
  then show ?thesis by simp
qed

lemma length_device_scores [simp]: "length (device_scores s dq dqn nq) = length (d_results s)"
  by (simp add: device_scores_def Let_def launch_def)

lemma device_scores_regular:
  assumes "current_count s * nq \<le> INT_MAX" and "0 < nq" and "nq \<le> INT_MAX"
    and "dim s \<le> INT_MAX"
  shows "device_scores s dq dqn (int nq) =
     launch ((int (current_count s * nq) + 256 - 1) sdiv 256) 256
       (compute_l2_dist_kernel (d_db_norms s) dqn (int (current_count s)) (int nq))
       (cublasSgemm_TN (int (current_count s)) (int nq) (int (dim s)) (- 2) (d_db s)
          (int (dim s)) dq (int (dim s)) 0 (d_results s) (int (current_count s)))"
proof -
  have "current_count s \<le> current_count s * nq" using assms(2) by simp
  then have cc: "current_count s \<le> INT_MAX" using assms(1) by (rule order_trans)
  show ?thesis
    by (simp add: device_scores_def Let_def int_of_size_t_small [OF cc]
        int_of_size_t_small [OF assms(4)] total_pairs_small [OF assms(3,1)])
qed

lemma device_scores_cell:
  assumes "dim s \<le> INT_MAX" and "r < current_count s" and "qi < nq"
    and "current_count s * nq \<le> length (d_results s)"
    and "nq \<le> INT_MAX" and "current_count s * nq \<le> INT_MAX"
  shows "device_scores s dq dqn (int nq) ! (qi * current_count s + r) =
     cublasSgemm_TN (int (current_count s)) (int nq) (int (dim s)) (- 2) (d_db s)
          (int (dim s)) dq (int (dim s)) 0 (d_results s) (int (current_count s))
       ! (qi * current_count s + r)
     + d_db_norms s ! r + dqn ! qi"
proof -
  define cc where "cc = current_count s"
  define r1 where "r1 = cublasSgemm_TN (int cc) (int nq) (int (dim s)) (- 2) (d_db s)
      (int (dim s)) dq (int (dim s)) 0 (d_results s) (int cc)"
  have len1: "length r1 = length (d_results s)" by (simp add: r1_def)
  have nq: "0 < nq" using assms(3) by simp
  have "Suc qi \<le> nq" using assms(3) by simp
  then have "Suc qi * cc \<le> nq * cc" by (rule mult_le_mono1)
  then have idx: "r + qi * cc < cc * nq" using assms(2) by (simp add: cc_def mult.commute)
  have md: "(r + qi * cc) mod cc = r" "(r + qi * cc) div cc = qi"
    using assms(2) by (simp_all add: cc_def)
  have "0 < cc * nq" using idx by linarith
  then have pos: "0 < int (cc * nq)" by (simp only: of_nat_0_less_iff)
  have bl: "cc * nq \<le> nat ((int (cc * nq) + 256 - 1) sdiv 256) * 256"
    using blocks_pos [OF pos] by (simp only: nat_int)
  have "device_scores s dq dqn (int nq) ! (r + qi * cc) =
      r1 ! (r + qi * cc) + d_db_norms s ! ((r + qi * cc) mod cc) + dqn ! ((r + qi * cc) div cc)"
    unfolding device_scores_regular [OF assms(6) nq assms(5,1)] cc_def [symmetric] r1_def [symmetric]
    using idx assms(4) len1 bl by (intro launch_l2_nth) (simp_all add: cc_def)
  from this [unfolded md] show ?thesis by (simp add: cc_def r1_def add.commute)
qed

lemma device_scores_nth:
  assumes "0 < dim s" and "dim s \<le> INT_MAX" and "r < current_count s" and "qi < nq"
    and "current_count s * nq \<le> length (d_results s)"
    and "nq \<le> INT_MAX" and "current_count s * nq \<le> INT_MAX"
  shows "device_scores s dq dqn (int nq) ! (qi * current_count s + r) =
     - 2 * (\<Sum>l\<leftarrow>[0..<dim s]. d_db s ! (l + r * dim s) * dq ! (l + qi * dim s))
     + d_db_norms s ! r + dqn ! qi"
proof -
  define cc where "cc = current_count s"
  have "Suc qi \<le> nq" using assms(4) by simp
  then have "Suc qi * cc \<le> nq * cc" by (rule mult_le_mono1)
  then have idx: "r + qi * cc < cc * nq" using assms(3) by (simp add: cc_def mult.commute)
  have g: "cublasSgemm_TN (int cc) (int nq) (int (dim s)) (- 2) (d_db s)
      (int (dim s)) dq (int (dim s)) 0 (d_results s) (int cc) ! (r + qi * cc) =
      - 2 * (\<Sum>l\<leftarrow>[0..<dim s]. d_db s ! (l + r * dim s) * dq ! (l + qi * dim s))"
    using assms idx by (intro gemm_nth) (simp_all add: cc_def)
  show ?thesis
    using device_scores_cell [OF assms(2-7), of dq dqn] g
    by (simp add: cc_def add.commute)
qed

lemma device_scores_dim0:
  assumes "dim s = 0" and "r < current_count s" and "qi < nq"
    and "current_count s * nq \<le> length (d_results s)"
    and "nq \<le> INT_MAX" and "current_count s * nq \<le> INT_MAX"
  shows "device_scores s dq dqn (int nq) ! (qi * current_count s + r) =
     d_results s ! (qi * current_count s + r) + d_db_norms s ! r + dqn ! qi"
proof -
  have d: "dim s \<le> INT_MAX" using assms(1) by simp
  show ?thesis
    using device_scores_cell [OF d assms(2-6), of dq dqn] assms(1)
    by (simp add: cublasSgemm_TN_def sgemm_refused_def)
qed

lemma db_row_nth:
  assumes "GpuIndex_inv s" and "r < current_count s" and "current_count s \<le> INT_MAX"
  shows "length (db_row s r) = dim s"
    and "l < dim s \<Longrightarrow> db_row s r ! l = d_db s ! (l + r * dim s)"
proof -
  have "Suc r \<le> max_vectors s" using assms by (simp add: GpuIndex_inv_def)
  then have "Suc r * dim s \<le> max_vectors s * dim s" by (rule mult_le_mono1)
  then have fit: "r * dim s + dim s \<le> length (d_db s)"
    using assms(1) by (simp add: GpuIndex_inv_def)
  then show "length (db_row s r) = dim s" by (simp add: db_row_def)
  show "db_row s r ! l = d_db s ! (l + r * dim s)" if "l < dim s"
    using that fit by (simp add: db_row_def add.commute)
qed

lemma device_in_bounds_regular:
  assumes dib: "device_in_bounds s dq dqn (int n)" and cc: "0 < current_count s"
    and n: "0 < n" "n \<le> INT_MAX" and le: "current_count s * n \<le> INT_MAX"
  shows "current_count s * n + 255 \<le> INT_MAX"
    and "current_count s * n \<le> length (d_results s)"
    and "n \<le> length dqn"
    and "current_count s \<le> length (d_db_norms s)"
proof -
  define c where "c = current_count s"
  have "c \<le> c * n" using n(1) by simp
  then have c: "c \<le> INT_MAX" using le unfolding c_def by (rule order_trans)
  have ndb: "int_of_size_t (current_count s) = int c"
    using c by (simp add: int_of_size_t_small c_def)
  have tp: "total_pairs (current_count s) (int n) = int (c * n)"
    using n(2) le by (simp add: total_pairs_small c_def)
  define r1 where "r1 = cublasSgemm_TN (int c) (int n) (int_of_size_t (dim s)) (- 2) (d_db s)
      (int_of_size_t (dim s)) dq (int_of_size_t (dim s)) 0 (d_results s) (int c)"
  from dib have fits: "int_fits (int (c * n) + 256 - 1)"
    and ld: "launch_defined ((int (c * n) + 256 - 1) sdiv 256) 256
           (l2_thread_defined (d_db_norms s) dqn r1 (int c) (int n))"
    by (simp_all add: device_in_bounds_def Let_def ndb tp r1_def)
  have "int (c * n) + 255 \<le> 2147483647" using fits by (simp add: int_fits_def)
  then have "int (c * n + 255) \<le> int 2147483647" by simp
  then have "c * n + 255 \<le> 2147483647" by (simp only: of_nat_le_iff)
  then show "current_count s * n + 255 \<le> INT_MAX" by (simp add: c_def INT_MAX_def)
  have pos: "0 < c * n" using cc n(1) by (simp add: c_def)
  then have "0 < int (c * n)" by (simp only: of_nat_0_less_iff)
  from blocks_pos [OF this]
  have bl: "c * n \<le> nat ((int (c * n) + 256 - 1) sdiv 256) * 256" by (simp only: nat_int)
  have thr: "l2_thread_defined (d_db_norms s) dqn r1 (int c) (int n) idx" if "idx < c * n" for idx
    using ld that bl by (simp add: launch_defined_def list_all_iff)
  have last: "c * n - 1 < c * n" using pos by simp
  have "\<not> c * n \<le> c * n - 1" using last by linarith
  with thr [OF last, unfolded l2_thread_defined_nat]
  have "c * n - 1 < length r1" and d: "(c * n - 1) div c < length dqn" by blast+
  then show "current_count s * n \<le> length (d_results s)" by (simp add: r1_def c_def)
  have "c * n - 1 = (n - 1) * c + (c - 1)"
  proof -
    obtain n' where "n = Suc n'" using n(1) by (cases n) simp_all
    moreover obtain c' where "c = Suc c'" using cc by (cases c) (simp_all add: c_def)
    ultimately show ?thesis by simp
  qed
  moreover have "((n - 1) * c + (c - 1)) div c = n - 1"
  proof -
    have cne: "c \<noteq> 0" using cc by (simp add: c_def)
    have "((n - 1) * c + (c - 1)) div c = (n - 1) + (c - 1) div c"
      using cne by (rule div_mult_self3)
    moreover have "(c - 1) div c = 0" using cne by simp
    ultimately show ?thesis by simp
  qed
  ultimately have "n - 1 < length dqn" using d by simp
  then show "n \<le> length dqn" by simp
  have first: "c - 1 < c * n"
  proof -
    have "c \<le> c * n" using n(1) by simp
    moreover have "c - 1 < c" using cc by (simp add: c_def)
    ultimately show ?thesis by (rule less_le_trans [rotated])
  qed
  have "\<not> c * n \<le> c - 1" using first by linarith
  with thr [OF first, unfolded l2_thread_defined_nat]
  have "(c - 1) mod c < length (d_db_norms s)" by blast
  moreover have "(c - 1) mod c = c - 1" using cc by (simp add: c_def)
  ultimately show "current_count s \<le> length (d_db_norms s)" by (simp add: c_def)
qed

lemma device_in_bounds_inv:
  assumes inv: "GpuIndex_inv s" and n: "n \<le> max_batch_size s"
    and le: "current_count s * n + 255 \<le> INT_MAX" and d: "dim s \<le> INT_MAX"
    and len: "length dq = length (d_queries s)" "length dqn = length (d_q_norms s)"
  shows "device_in_bounds s dq dqn (int n)"
proof (cases "n = 0 \<or> current_count s = 0")
  case True
  then show ?thesis
  proof
    assume "n = 0"
    then show ?thesis
      by (simp add: device_in_bounds_def Let_def total_pairs_def size_t_of_int_def
          int_of_size_t_def sgemm_in_bounds_def launch_defined_def int_fits_def)
  next
    assume "current_count s = 0"
    then show ?thesis
      by (simp add: device_in_bounds_def Let_def int_of_size_t_def sgemm_in_bounds_def
          sgemm_refused_def launch_defined_def int_fits_def)
  qed
next
  case False
  define c where "c = current_count s"
  from False have pos: "0 < n" "0 < c" by (simp_all add: c_def)
  have n100: "n \<le> 100" using inv n by (simp add: GpuIndex_inv_def)
  then have nsmall: "n \<le> INT_MAX" by (simp add: INT_MAX_def)
  have "c \<le> c * n" using pos by simp
  also have "\<dots> \<le> c * n + 255" by simp
  also have "\<dots> \<le> INT_MAX" using le by (simp add: c_def)
  finally have csmall: "c \<le> INT_MAX" .
  have cn: "c * n \<le> INT_MAX" using le by (simp add: c_def)
  have cm: "c \<le> max_vectors s" using inv csmall by (simp add: GpuIndex_inv_def c_def)
  have ndb: "int_of_size_t (current_count s) = int c"
    using csmall by (simp add: int_of_size_t_small c_def)
  have cols: "int_of_size_t (dim s) = int (dim s)" using d by (rule int_of_size_t_small)
  have tp: "total_pairs (current_count s) (int n) = int (c * n)"
    using nsmall cn by (simp add: total_pairs_small c_def)
  have b1: "c * dim s \<le> length (d_db s)"
    using inv cm by (simp add: GpuIndex_inv_def)
  have b2: "n * dim s \<le> length dq"
    using inv n len by (simp add: GpuIndex_inv_def)
  have b3: "c * n \<le> length (d_results s)"
    using inv cm n by (simp add: GpuIndex_inv_def mult_le_mono)
  have g: "sgemm_in_bounds (int c) (int n) (int (dim s)) (d_db s) (int (dim s)) dq (int (dim s))
      (d_results s) (int c)"
    using b1 b2 b3 by (simp add: sgemm_in_bounds_nat)
  have f: "int_fits (int (c * n) + 256 - 1)"
  proof -
    have "int (c * n + 255) \<le> int 2147483647"
      using le by (simp only: of_nat_le_iff) (simp add: c_def INT_MAX_def)
    then show ?thesis by (simp add: int_fits_def)
  qed
  have thr: "l2_thread_defined (d_db_norms s) dqn r1 (int c) (int n) idx"
    if "length r1 = length (d_results s)" for r1 idx
  proof (cases "idx < c * n")
    case False
    then show ?thesis using cn by (simp add: l2_thread_defined_nat)
  next
    case True
    then have "idx div c < n" using pos by (simp add: less_mult_imp_div_less mult.commute)
    then have "idx div c < length dqn" using inv n len by (simp add: GpuIndex_inv_def)
    moreover have "idx mod c < length (d_db_norms s)"
    proof -
      have "idx mod c < c" using pos by simp
      then show ?thesis using inv cm by (simp add: GpuIndex_inv_def)
    qed
    ultimately show ?thesis using True cn b3 that by (simp add: l2_thread_defined_nat)
  qed
  show ?thesis
    using g f by (simp add: device_in_bounds_def Let_def ndb cols tp launch_defined_def
        list_all_iff thr)
qed

subsection \<open>The invariant of the index\<close>

lemma GpuIndex_ctor_inv: "GpuIndex_inv (GpuIndex_ctor fresh d c)"
  by (simp add: GpuIndex_inv_def GpuIndex_ctor_def)

lemma add_single_vector_inv:
  assumes inv: "GpuIndex_inv s" and add: "add_single_vector s v = Inr (ok, s')"
  shows "GpuIndex_inv s'"
proof (cases "current_count s < max_vectors s")
  case False
  then have "s' = s" using add by (simp add: add_single_vector_def)
  then show ?thesis using inv by simp
next
  case True
  define cc where "cc = current_count s"
  define d where "d = dim s"
  define v' where "v' = take d v"
  define db where "db = cudaMemcpy (d_db s) (cc * d) v'"
  define nm where "nm = cudaMemcpy (d_db_norms s) cc [sum_sq v']"
  have room: "length v' = d"
    and s': "s' = s\<lparr>d_db := db, d_db_norms := nm, current_count := cc + 1\<rparr>"
    using add True
    by (auto simp: add_single_vector_def Let_def cc_def d_def v'_def db_def nm_def split: if_splits)
  have fit: "cc * d + d \<le> length (d_db s)"
  proof -
    have "Suc cc \<le> max_vectors s" using True by (simp add: cc_def)
    then have "Suc cc * d \<le> max_vectors s * d" by (rule mult_le_mono1)
    then show ?thesis using inv by (simp add: GpuIndex_inv_def d_def)
  qed
  have rows: "take d (drop (r * d) db) = take d (drop (r * d) (d_db s))" if "r < cc" for r
  proof -
    have "Suc r \<le> cc" using that by simp
    then have "Suc r * d \<le> cc * d" by (rule mult_le_mono1)
    then show ?thesis
      unfolding db_def using fit by (intro cudaMemcpy_take_drop_below) simp_all
  qed
  have newrow: "take d (drop (cc * d) db) = v'"
    unfolding db_def using fit room by (intro cudaMemcpy_take_drop)
  have len: "length (d_db_norms s) = max_vectors s"
    using inv by (simp add: GpuIndex_inv_def)
  have norms: "list_all (\<lambda>r. nm ! r = sum_sq (take d (drop (r * d) db))) [0..<Suc cc]"
    if small: "cc + 1 \<le> INT_MAX" "d \<le> INT_MAX"
  proof -
    have old: "list_all (\<lambda>r. d_db_norms s ! r = sum_sq (db_row s r)) [0..<cc]"
      using inv small by (simp add: GpuIndex_inv_def cc_def d_def)
    have n_old: "nm ! r = d_db_norms s ! r" if "r < cc" for r
      unfolding nm_def using that True len by (intro cudaMemcpy_nth_below) (simp_all add: cc_def)
    have "nm ! (cc + 0) = [sum_sq v'] ! 0"
      unfolding nm_def using True len by (intro cudaMemcpy_nth_in) (simp_all add: cc_def)
    then have n_new: "nm ! cc = sum_sq v'" by simp
    have "list_all (\<lambda>r. nm ! r = sum_sq (take d (drop (r * d) db))) [0..<cc]"
      using old rows n_old by (simp add: list_all_iff db_row_def d_def)
    then show ?thesis using n_new newrow by simp
  qed
  show ?thesis
    using inv True norms
    by (simp add: GpuIndex_inv_def s' db_row_def d_def db_def nm_def cc_def)
qed

lemma load_data_inv:
  assumes inv: "GpuIndex_inv s" and ld: "load_data s cnt data = Inr s'"
  shows "GpuIndex_inv s'"
proof -
  define d where "d = dim s"
  define n where "n = (cnt * d * 4) mod 2 ^ 64 div 4"
  define db where "db = cudaMemcpy (d_db s) 0 (take n data)"
  define blocks where "blocks = int_of_size_t ((cnt + 256 - 1) mod 2 ^ 64 div 256)"
  define nm where "nm = launch blocks 256
      (compute_norms_kernel db (int_of_size_t cnt) (int_of_size_t d)) (d_db_norms s)"
  from ld have long: "n \<le> length data"
    and def: "launch_defined blocks 256
       (norms_thread_defined db (d_db_norms s) (int_of_size_t cnt) (int_of_size_t d))"
    and s': "s' = s\<lparr>current_count := cnt, d_db := db, d_db_norms := nm\<rparr>"
    by (auto simp: load_data_def Let_def d_def n_def db_def nm_def blocks_def split: if_splits)
  have len: "length (d_db_norms s) = max_vectors s"
    using inv by (simp add: GpuIndex_inv_def)
  have lnm: "length nm = length (d_db_norms s)" by (simp add: nm_def launch_def)
  have main: "cnt \<le> max_vectors s \<and>
      (d \<le> INT_MAX \<longrightarrow> list_all (\<lambda>r. nm ! r = sum_sq (take d (drop (r * d) db))) [0..<cnt])"
    if small: "cnt \<le> INT_MAX"
  proof -
    have rows: "int_of_size_t cnt = int cnt" using small by (rule int_of_size_t_small)
    have "cnt + 255 < 2 ^ 64" using small by (simp add: INT_MAX_def)
    then have m: "(cnt + 256 - 1) mod 2 ^ 64 = cnt + 255" by simp
    have "(cnt + 255) div 256 \<le> INT_MAX" using small by (simp add: INT_MAX_def)
    then have bl: "blocks = int ((cnt + 255) div 256)"
      unfolding blocks_def m by (rule int_of_size_t_small)
    define x where "x = cnt + 255"
    have "x div 256 * 256 + x mod 256 = x" by (rule div_mult_mod_eq)
    moreover have "x mod 256 < 256" by simp
    ultimately have "cnt \<le> x div 256 * 256" unfolding x_def by linarith
    then have cover: "cnt \<le> nat blocks * 256" by (simp add: bl x_def)
    have thr: "norms_thread_defined db (d_db_norms s) (int cnt) (int_of_size_t d) idx"
      if "idx < cnt" for idx
      using def that cover by (simp add: launch_defined_def list_all_iff rows)
    have cap: "cnt \<le> max_vectors s"
    proof (cases cnt)
      case 0
      then show ?thesis by simp
    next
      case (Suc c)
      have "c < cnt" using Suc by simp
      from thr [OF this] have "c < length (d_db_norms s)"
        using Suc by (simp add: norms_thread_defined_def)
      then show ?thesis using Suc len by simp
    qed
    have "list_all (\<lambda>r. nm ! r = sum_sq (take d (drop (r * d) db))) [0..<cnt]"
      if dsmall: "d \<le> INT_MAX"
    proof -
      have cols: "int_of_size_t d = int d" using dsmall by (rule int_of_size_t_small)
      have "nm ! r = sum_sq (take d (drop (r * d) db))" if "r < cnt" for r
        using that cap cover len by (simp add: nm_def launch_def rows cols fold_norms_nth)
      then show ?thesis by (simp add: list_all_iff)
    qed
    with cap show ?thesis by simp
  qed
  show ?thesis
    using inv main by (simp add: GpuIndex_inv_def s' db_row_def d_def db_def lnm)
qed

lemma search_inv:
  assumes "GpuIndex_inv s" and "search s queries k = Inr (res, s')"
  shows "GpuIndex_inv s'"
proof -
  from assms(2) have "s' = s \<or> (\<exists>dq dqn nq. s' = s\<lparr>d_queries := cudaMemcpy (d_queries s) 0 dq,
      d_q_norms := cudaMemcpy (d_q_norms s) 0 dqn,
      d_results := device_scores s (cudaMemcpy (d_queries s) 0 dq)
         (cudaMemcpy (d_q_norms s) 0 dqn) nq\<rparr>)"
    by (auto simp: search_def Let_def split: if_splits)
  then show ?thesis
    using assms(1) by (auto simp: GpuIndex_inv_def db_row_def)
qed

lemma GpuIndex_reachable_inv: "GpuIndex_reachable s \<Longrightarrow> GpuIndex_inv s"
  by (induction rule: GpuIndex_reachable.induct)
     (auto intro: GpuIndex_ctor_inv add_single_vector_inv load_data_inv search_inv)

subsection \<open>What a search returns\<close>

lemma search_no_queries: "search s [] k = Inr ([], s)"
  by (simp add: search_def int_of_size_t_def)

lemma search_Inr:
  assumes sr: "search s queries k = Inr (res, s')" and ne: "queries \<noteq> []"
    and small: "length queries \<le> INT_MAX"
  shows "current_count s * length queries + 255 \<le> INT_MAX"
    and "device_in_bounds s (cudaMemcpy (d_queries s) 0 (concat queries))
           (cudaMemcpy (d_q_norms s) 0 (map sum_sq queries)) (int (length queries))"
    and "res = map (\<lambda>q. query_results
            (take (current_count s * length queries)
               (device_scores s (cudaMemcpy (d_queries s) 0 (concat queries))
                  (cudaMemcpy (d_q_norms s) 0 (map sum_sq queries)) (int (length queries))))
            (current_count s) q k) [0..<length queries]"
proof -
  define n where "n = length queries"
  define cc where "cc = current_count s"
  define dq where "dq = cudaMemcpy (d_queries s) 0 (concat queries)"
  define dqn where "dqn = cudaMemcpy (d_q_norms s) 0 (map sum_sq queries)"
  define r2 where "r2 = device_scores s dq dqn (int n)"
  define tp where "tp = total_pairs cc (int n)"
  define sc where "sc = (if nat tp \<le> length r2 then take (nat tp) r2 else replicate (nat tp) 0)"
  have nq: "int_of_size_t (length queries) = int n"
    using small by (simp add: int_of_size_t_small n_def)
  have npos: "0 < n" using ne by (simp add: n_def)
  have lsc: "length sc = nat tp" by (simp add: sc_def)
  from sr npos have dib: "device_in_bounds s dq dqn (int n)" and tp0: "0 \<le> tp"
    and cib: "candidates_in_bounds cc n (length sc)"
    and res: "res = map (\<lambda>q. query_results sc cc q k) [0..<n]"
    unfolding search_def nq Let_def
    by (auto simp: n_def cc_def dq_def dqn_def r2_def tp_def sc_def split: if_splits)
  show "device_in_bounds s (cudaMemcpy (d_queries s) 0 (concat queries))
           (cudaMemcpy (d_q_norms s) 0 (map sum_sq queries)) (int (length queries))"
    using dib by (simp add: dq_def dqn_def n_def)
  have both: "cc * n + 255 \<le> INT_MAX \<and> sc = take (cc * n) r2"
  proof (cases "cc = 0")
    case True
    then have "tp = 0" by (simp add: tp_def)
    then show ?thesis using True by (simp add: sc_def INT_MAX_def)
  next
    case False
    then have le: "n * cc \<le> nat (total_pairs cc (int n))"
      using cib by (simp add: candidates_in_bounds_def lsc tp_def)
    have nsmall: "n \<le> INT_MAX" using small by (simp add: n_def)
    note ex = total_pairs_exact [OF nsmall le]
    have cpos: "0 < current_count s" using False by (simp add: cc_def)
    note reg = device_in_bounds_regular [OF dib cpos npos nsmall ex(1) [unfolded cc_def]]
    have "nat tp = cc * n" using ex(2) by (simp only: tp_def nat_int)
    then have "sc = take (cc * n) r2"
      using reg(2) by (simp add: sc_def r2_def cc_def)
    with reg(1) show ?thesis by (simp add: cc_def)
  qed
  then show "current_count s * length queries + 255 \<le> INT_MAX"
    by (simp add: cc_def n_def)
  show "res = map (\<lambda>q. query_results
            (take (current_count s * length queries)
               (device_scores s (cudaMemcpy (d_queries s) 0 (concat queries))
                  (cudaMemcpy (d_q_norms s) 0 (map sum_sq queries)) (int (length queries))))
            (current_count s) q k) [0..<length queries]"
    using res both by (simp add: cc_def n_def r2_def dq_def dqn_def)
qed

lemma search_returns:
  assumes inv: "GpuIndex_inv s" and n: "length queries \<le> max_batch_size s"
    and le: "current_count s * length queries + 255 \<le> INT_MAX" and d: "dim s \<le> INT_MAX"
  shows "\<exists>res s'. search s queries k = Inr (res, s')"
proof (cases "queries = []")
  case True
  then show ?thesis by (simp add: search_no_queries)
next
  case False
  define nn where "nn = length queries"
  define cc where "cc = current_count s"
  define dq where "dq = cudaMemcpy (d_queries s) 0 (concat queries)"
  define dqn where "dqn = cudaMemcpy (d_q_norms s) 0 (map sum_sq queries)"
  have npos: "0 < nn" using False by (simp add: nn_def)
  have nsmall: "nn \<le> INT_MAX" using inv n by (simp add: GpuIndex_inv_def INT_MAX_def nn_def)
  have nq: "int_of_size_t (length queries) = int nn"
    using nsmall by (simp add: int_of_size_t_small nn_def)
  have cn: "cc * nn \<le> INT_MAX" using le by (simp add: cc_def nn_def)
  have "cc \<le> cc * nn" using npos by simp
  then have csmall: "cc \<le> INT_MAX" using cn by (rule order_trans)
  have lens: "length dq = length (d_queries s)" "length dqn = length (d_q_norms s)"
    by (simp_all add: dq_def dqn_def)
  have dib: "device_in_bounds s dq dqn (int nn)"
    unfolding nn_def by (rule device_in_bounds_inv [OF inv n le d lens])
  have tp: "total_pairs cc (int nn) = int (cc * nn)"
    using nsmall cn by (rule total_pairs_small)
  have tp0: "\<not> total_pairs cc (int nn) < 0" by (simp only: tp of_nat_less_0_iff not_False_eq_True)
  have tpn: "nat (total_pairs cc (int nn)) = cc * nn" by (simp only: tp nat_int)
  have "cc \<le> max_vectors s" using inv csmall by (simp add: GpuIndex_inv_def cc_def)
  then have "cc * nn \<le> max_vectors s * max_batch_size s"
    using n by (simp add: nn_def mult_le_mono)
  then have fits: "cc * nn \<le> length (device_scores s dq dqn (int nn))"
    using inv by (simp add: GpuIndex_inv_def)
  have vm: "\<not> vector_max_size < cc"
    using csmall by (simp add: vector_max_size_def INT_MAX_def)
  have cib: "candidates_in_bounds cc nn (cc * nn)"
    using csmall by (simp add: candidates_in_bounds_def mult.commute)
  show ?thesis
    unfolding search_def nq Let_def
    using npos dib fits vm cib
    by (simp add: cc_def [symmetric] dq_def [symmetric] dqn_def [symmetric] tp0 tpn)
qed

lemma search_results:
  assumes "search s queries k = Inr (res, s')" and "length queries \<le> INT_MAX"
  shows "\<exists>sc. res = map (\<lambda>q. query_results sc (current_count s) q k) [0..<length queries]"
    and "queries \<noteq> [] \<Longrightarrow> current_count s \<le> INT_MAX"
proof -
  show "\<exists>sc. res = map (\<lambda>q. query_results sc (current_count s) q k) [0..<length queries]"
  proof (cases "queries = []")
    case True
    with assms(1) show ?thesis by (simp add: search_no_queries)
  next
    case False
    from search_Inr(3) [OF assms(1) False assms(2)] show ?thesis by blast
  qed
  show "current_count s \<le> INT_MAX" if "queries \<noteq> []"
  proof -
    from search_Inr(1) [OF assms(1) that assms(2)]
    have "current_count s * length queries + 255 \<le> INT_MAX" .
    moreover from that obtain n where "length queries = Suc n" by (cases queries) auto
    then have "current_count s \<le> current_count s * length queries" by simp
    ultimately show ?thesis by linarith
  qed
qed







subsection \<open>The example indexes\<close>

lemma gpu3_fields:
  "current_count gpu3 = 3" "dim gpu3 = 4" "max_batch_size gpu3 = 100"
  by (simp_all add: gpu3_def)

lemma gpu3_reachable: "GpuIndex_reachable gpu3"
proof -
  define g0 where "g0 = GpuIndex_ctor (\<lambda>i. 0) 4 3"
  have z: "map (\<lambda>i. 0 :: real) [0..<n] = replicate n 0" for n
    by (simp add: map_replicate_const)
  have r12: "replicate 12 (0 :: real) = [0, 0, 0, 0, 0, 0, 0, 0, 0, 0, 0, 0]"
    and r3: "replicate 3 (0 :: real) = [0, 0, 0]"
    by (simp_all add: numeral_eq_Suc)
  have g0: "g0 = \<lparr>d_db = [0, 0, 0, 0, 0, 0, 0, 0, 0, 0, 0, 0], d_db_norms = [0, 0, 0],
     d_queries = replicate 400 0, d_q_norms = replicate 100 0, d_results = replicate 300 0,
     max_vectors = 3, dim = 4, current_count = 0, max_batch_size = 100\<rparr>"
    by (simp add: g0_def GpuIndex_ctor_def z r12 r3)
  define g1 where "g1 = g0\<lparr>d_db := [1, 0, 0, 0, 0, 0, 0, 0, 0, 0, 0, 0], d_db_norms := [1, 0, 0],
     current_count := 1\<rparr>"
  define g2 where "g2 = g1\<lparr>d_db := [1, 0, 0, 0, 0, 1, 0, 0, 0, 0, 0, 0], d_db_norms := [1, 1, 0],
     current_count := 2\<rparr>"
  have a1: "add_single_vector g0 [1, 0, 0, 0] = Inr (True, g1)"
    by (simp add: g0 g1_def add_single_vector_def cudaMemcpy_def sum_sq_def)
  have a2: "add_single_vector g1 [0, 1, 0, 0] = Inr (True, g2)"
    by (simp add: g0 g1_def g2_def add_single_vector_def cudaMemcpy_def sum_sq_def)
  have a3: "add_single_vector g2 [1, 1, 0, 0] = Inr (True, gpu3)"
    by (simp add: g0 g1_def g2_def gpu3_def add_single_vector_def cudaMemcpy_def sum_sq_def)
  have "GpuIndex_reachable g0" unfolding g0_def by (rule GpuIndex_reachable.constructed)
  then have "GpuIndex_reachable g1" using a1 by (rule GpuIndex_reachable.added)
  then have "GpuIndex_reachable g2" using a2 by (rule GpuIndex_reachable.added)
  then show ?thesis using a3 by (rule GpuIndex_reachable.added)
qed

lemma gpu3_inv: "GpuIndex_inv gpu3"
  using gpu3_reachable by (rule GpuIndex_reachable_inv)

lemma gpu3_scenario:
  "\<exists>s'. search gpu3 [[1, 0, 0, 0]] 3 =
     Inr ([[\<lparr>result_id = 0, score = 0\<rparr>, \<lparr>result_id = 2, score = 1\<rparr>,
            \<lparr>result_id = 1, score = 2\<rparr>]], s')"
proof -
  define qs where "qs = [[1, 0, 0, 0 :: real]]"
  define n where "n = length qs"
  have n1: "n = 1" by (simp add: n_def qs_def)
  define dq where "dq = cudaMemcpy (d_queries gpu3) 0 (concat qs)"
  define dqn where "dqn = cudaMemcpy (d_q_norms gpu3) 0 (map sum_sq qs)"
  define sc where "sc = take (current_count gpu3 * n) (device_scores gpu3 dq dqn (int n))"
  have ne: "qs \<noteq> []" by (simp add: qs_def)
  have small: "length qs \<le> INT_MAX" by (simp add: qs_def INT_MAX_def)
  obtain res s' where sr: "search gpu3 qs 3 = Inr (res, s')"
    using search_returns [OF gpu3_inv, of qs 3] by (auto simp: gpu3_fields INT_MAX_def qs_def)
  have "res = map (\<lambda>q. query_results sc (current_count gpu3) q 3) [0..<n]"
    using search_Inr(3) [OF sr ne small] by (simp only: sc_def dq_def dqn_def n_def)
  then have res: "res = [query_results sc 3 0 3]" by (simp add: n1 gpu3_fields)
  have dq4: "take 4 dq = [1, 0, 0, 0]"
    by (simp add: dq_def qs_def gpu3_def cudaMemcpy_def)
  have dqn0: "dqn ! 0 = 1"
    by (simp add: dqn_def qs_def gpu3_def cudaMemcpy_def sum_sq_def)
  have u4: "[0..<4] = [0, 1, 2, 3]" by (simp add: upt_rec)
  have dql: "dq ! 0 = 1" "dq ! 1 = 0" "dq ! 2 = 0" "dq ! 3 = 0"
    using arg_cong [OF dq4, of "\<lambda>xs. xs ! 0"] arg_cong [OF dq4, of "\<lambda>xs. xs ! 1"]
      arg_cong [OF dq4, of "\<lambda>xs. xs ! 2"] arg_cong [OF dq4, of "\<lambda>xs. xs ! 3"]
    by simp_all
  have dq1: "dq ! Suc 0 = 0" using dql(2) by simp
  have ds: "device_scores gpu3 dq dqn (int n) ! (0 * current_count gpu3 + r) =
     - 2 * (\<Sum>l\<leftarrow>[0..<dim gpu3]. d_db gpu3 ! (l + r * dim gpu3) * dq ! (l + 0 * dim gpu3))
     + d_db_norms gpu3 ! r + dqn ! 0" if "r < 3" for r
    using that by (intro device_scores_nth) (simp_all add: gpu3_def n1 INT_MAX_def)
  have sc_nth: "sc ! r = device_scores gpu3 dq dqn (int n) ! (0 * current_count gpu3 + r)"
    if "r < 3" for r
    using that by (simp add: sc_def gpu3_fields n1)
  have v0: "- 2 * (\<Sum>l\<leftarrow>[0..<dim gpu3]. d_db gpu3 ! (l + 0 * dim gpu3) * dq ! (l + 0 * dim gpu3))
     + d_db_norms gpu3 ! 0 + dqn ! 0 = 0"
    by (simp add: gpu3_def u4 dql dq1 dqn0)
  have v1: "- 2 * (\<Sum>l\<leftarrow>[0..<dim gpu3]. d_db gpu3 ! (l + 1 * dim gpu3) * dq ! (l + 0 * dim gpu3))
     + d_db_norms gpu3 ! 1 + dqn ! 0 = 2"
    by (simp add: gpu3_def u4 dql dq1 dqn0)
  have v2: "- 2 * (\<Sum>l\<leftarrow>[0..<dim gpu3]. d_db gpu3 ! (l + 2 * dim gpu3) * dq ! (l + 0 * dim gpu3))
     + d_db_norms gpu3 ! 2 + dqn ! 0 = 1"
    by (simp add: gpu3_def u4 dql dq1 dqn0)
  have s0: "sc ! 0 = 0" using sc_nth [of 0] ds [of 0] v0 by simp
  have s1: "sc ! 1 = 2" using sc_nth [of 1] ds [of 1] v1 by simp
  have s2: "sc ! 2 = 1" using sc_nth [of 2] ds [of 2] v2 by simp
  have s1': "sc ! Suc 0 = 2" using s1 by simp
  have u3: "[0..<3] = [0, 1, 2]" by (simp add: upt_rec)
  have "query_results sc 3 0 3 =
      [\<lparr>result_id = 0, score = 0\<rparr>, \<lparr>result_id = 2, score = 1\<rparr>, \<lparr>result_id = 1, score = 2\<rparr>]"
    by (simp add: query_results_def partial_sort_front_def u3 s0 s1' s2 less_eq_prod_def)
  with sr res show ?thesis by (auto simp: qs_def)
qed



lemma gpu_dim0_row_fields:
  "current_count gpu_dim0_row = 1" "dim gpu_dim0_row = 0" "max_batch_size gpu_dim0_row = 100"
  "d_db gpu_dim0_row = []" "d_db_norms gpu_dim0_row = [0]"
  "d_results gpu_dim0_row = map (\<lambda>i. 7) [0..<100]"
  "d_q_norms gpu_dim0_row = map (\<lambda>i. 7) [0..<100]"
  by (simp_all add: gpu_dim0_row_def gpu_dim0_def GpuIndex_ctor_def)

lemma gpu_dim0_row_added: "add_single_vector gpu_dim0 [] = Inr (True, gpu_dim0_row)"
  by (simp add: gpu_dim0_row_def gpu_dim0_def GpuIndex_ctor_def add_single_vector_def
      cudaMemcpy_def sum_sq_def)

lemma gpu_dim0_row_reachable: "GpuIndex_reachable gpu_dim0_row"
proof -
  have "GpuIndex_reachable gpu_dim0"
    unfolding gpu_dim0_def by (rule GpuIndex_reachable.constructed)
  then show ?thesis using gpu_dim0_row_added by (rule GpuIndex_reachable.added)
qed

lemma gpu_dim0_row_scenario:
  "\<exists>s'. search gpu_dim0_row [[]] 1 = Inr ([[\<lparr>result_id = 0, score = 7\<rparr>]], s')"
proof -
  define qs where "qs = [[] :: real list]"
  define n where "n = length qs"
  have n1: "n = 1" by (simp add: n_def qs_def)
  define dq where "dq = cudaMemcpy (d_queries gpu_dim0_row) 0 (concat qs)"
  define dqn where "dqn = cudaMemcpy (d_q_norms gpu_dim0_row) 0 (map sum_sq qs)"
  define sc where "sc = take (current_count gpu_dim0_row * n)
      (device_scores gpu_dim0_row dq dqn (int n))"
  have inv: "GpuIndex_inv gpu_dim0_row"
    using gpu_dim0_row_reachable by (rule GpuIndex_reachable_inv)
  have ne: "qs \<noteq> []" by (simp add: qs_def)
  have small: "length qs \<le> INT_MAX" by (simp add: qs_def INT_MAX_def)
  obtain res s' where sr: "search gpu_dim0_row qs 1 = Inr (res, s')"
    using search_returns [OF inv, of qs 1]
    by (auto simp: gpu_dim0_row_fields INT_MAX_def qs_def)
  have "res = map (\<lambda>q. query_results sc (current_count gpu_dim0_row) q 1) [0..<n]"
    using search_Inr(3) [OF sr ne small] by (simp only: sc_def dq_def dqn_def n_def)
  then have res: "res = [query_results sc 1 0 1]" by (simp add: n1 gpu_dim0_row_fields)
  have dqn0: "dqn ! 0 = 0"
    by (simp add: dqn_def qs_def gpu_dim0_row_fields cudaMemcpy_def sum_sq_def)
  have "device_scores gpu_dim0_row dq dqn (int n) ! (0 * current_count gpu_dim0_row + 0) =
     d_results gpu_dim0_row ! (0 * current_count gpu_dim0_row + 0)
     + d_db_norms gpu_dim0_row ! 0 + dqn ! 0"
    by (intro device_scores_dim0) (simp_all add: gpu_dim0_row_fields n1 INT_MAX_def)
  then have "device_scores gpu_dim0_row dq dqn (int n) ! 0 = 7"
    by (simp add: gpu_dim0_row_fields dqn0)
  then have s0: "sc ! 0 = 7" by (simp add: sc_def n1 gpu_dim0_row_fields)
  have "query_results sc 1 0 1 = [\<lparr>result_id = 0, score = 7\<rparr>]"
    by (simp add: query_results_def partial_sort_front_def s0)
  with sr res show ?thesis by (auto simp: qs_def)
qed

subsection \<open>Search results\<close>



text \<open>
  Claim C5, as amended to a dimension from 1 to \<open>INT_MAX\<close>: in every \<open>GpuIndex\<close> state
  with such a \<open>dim\<close>, for queries of \<open>dim\<close> components, every entry \<open>e\<close> that \<open>search\<close> reports
  for query \<open>qi\<close> names a stored row \<open>x\<close> and carries the score \<open>|x|^2 + |q|^2 - 2 x.q\<close>
  (over the reals): the product \<open>-2 X^T Q\<close> corrected by \<open>db_norms[row] + q_norms[col]\<close>.
\<close>

theorem search_score_identity:
  assumes inv: "GpuIndex_inv s" and dpos: "0 < dim s" and dsmall: "dim s \<le> INT_MAX"
    and qlen: "\<forall>q \<in> set queries. length q = dim s"
    and nq: "length queries \<le> max_batch_size s"
    and sr: "search s queries k = Inr (res, s')"
    and qi: "qi < length queries" and e: "e \<in> set (res ! qi)"
  shows "unat (result_id e) < current_count s \<and>
    score e =
      (\<Sum>v\<leftarrow>db_row s (unat (result_id e)). v * v) + (\<Sum>v\<leftarrow>queries ! qi. v * v)
      - 2 * (\<Sum>(a, b)\<leftarrow>zip (db_row s (unat (result_id e))) (queries ! qi). a * b)"
proof -
  define cc where "cc = current_count s"
  define n where "n = length queries"
  define dq where "dq = cudaMemcpy (d_queries s) 0 (concat queries)"
  define dqn where "dqn = cudaMemcpy (d_q_norms s) 0 (map sum_sq queries)"
  define sc where "sc = take (cc * n) (device_scores s dq dqn (int n))"
  have ne: "queries \<noteq> []" using qi by auto
  have small: "length queries \<le> INT_MAX"
    using inv nq by (simp add: GpuIndex_inv_def INT_MAX_def)
  have res: "res = map (\<lambda>q. query_results sc cc q k) [0..<n]"
    using search_Inr(3) [OF sr ne small] by (simp add: sc_def cc_def n_def dq_def dqn_def)
  have cn: "cc * n \<le> INT_MAX"
    using search_Inr(1) [OF sr ne small] by (simp add: cc_def n_def)
  have ccs: "cc \<le> INT_MAX" using search_results(2) [OF sr small ne] by (simp add: cc_def)
  then have cc64: "cc < 2 ^ 64" by (simp add: INT_MAX_def)
  from e qi have "e \<in> set (query_results sc cc qi k)" by (simp add: res n_def)
  then obtain r where r: "r < cc" and e_eq: "e = \<lparr>result_id = of_nat r, score = sc ! (qi * cc + r)\<rparr>"
    using query_results_props(4) [OF cc64] by blast
  have "r < 2 ^ 64" using r cc64 by simp
  then have id: "unat (result_id e) = r" by (simp add: e_eq unat_of_nat)
  have cm: "cc \<le> max_vectors s" using inv ccs by (simp add: GpuIndex_inv_def cc_def)
  have "cc * n \<le> max_vectors s * max_batch_size s"
    using cm nq by (simp add: n_def mult_le_mono)
  then have fits: "cc * n \<le> length (d_results s)"
    using inv by (simp add: GpuIndex_inv_def)
  have "Suc qi \<le> n" using qi by (simp add: n_def)
  then have "Suc qi * cc \<le> n * cc" by (rule mult_le_mono1)
  then have idx: "qi * cc + r < cc * n" using r by (simp add: mult.commute)
  then have "sc ! (qi * cc + r) = device_scores s dq dqn (int n) ! (qi * cc + r)"
    by (simp add: sc_def)
  also have "\<dots> = - 2 * (\<Sum>l\<leftarrow>[0..<dim s]. d_db s ! (l + r * dim s) * dq ! (l + qi * dim s))
     + d_db_norms s ! r + dqn ! qi"
    unfolding cc_def using dpos dsmall r qi fits small cn
    by (intro device_scores_nth) (simp_all add: cc_def n_def)
  finally have score: "score e =
      - 2 * (\<Sum>l\<leftarrow>[0..<dim s]. d_db s ! (l + r * dim s) * dq ! (l + qi * dim s))
      + d_db_norms s ! r + dqn ! qi"
    by (simp add: e_eq)
  have row: "length (db_row s r) = dim s"
    and row_nth: "\<And>l. l < dim s \<Longrightarrow> db_row s r ! l = d_db s ! (l + r * dim s)"
    using db_row_nth [OF inv, of r] r ccs by (simp_all add: cc_def)
  have qlen': "length (queries ! qi) = dim s" using qlen qi by simp
  have flat: "length (concat queries) = n * dim s"
    using qlen by (simp add: length_concat_uniform n_def)
  have "n * dim s \<le> max_batch_size s * dim s"
    using nq by (simp add: n_def)
  then have qfit: "0 + length (concat queries) \<le> length (d_queries s)"
    using inv by (simp add: GpuIndex_inv_def flat)
  have dq_nth: "dq ! (l + qi * dim s) = queries ! qi ! l" if l: "l < dim s" for l
  proof -
    have "Suc qi * dim s \<le> n * dim s" using \<open>Suc qi \<le> n\<close> by (rule mult_le_mono1)
    then have "l + qi * dim s < length (concat queries)" using l by (simp add: flat)
    then have "dq ! (0 + (l + qi * dim s)) = concat queries ! (l + qi * dim s)"
      unfolding dq_def using qfit by (intro cudaMemcpy_nth_in)
    then show ?thesis using concat_nth_uniform [OF qlen qi l] by simp
  qed
  have "map (\<lambda>l. d_db s ! (l + r * dim s) * dq ! (l + qi * dim s)) [0..<dim s] =
      map (\<lambda>l. db_row s r ! l * queries ! qi ! l) [0..<dim s]"
    using row_nth dq_nth by simp
  then have "(\<Sum>l\<leftarrow>[0..<dim s]. d_db s ! (l + r * dim s) * dq ! (l + qi * dim s)) =
      (\<Sum>l\<leftarrow>[0..<dim s]. db_row s r ! l * queries ! qi ! l)"
    by (rule arg_cong)
  also have "\<dots> = (\<Sum>(a, b)\<leftarrow>zip (db_row s r) (queries ! qi). a * b)"
    by (rule dot_as_index_sum [OF row qlen', symmetric])
  finally have dot: "(\<Sum>l\<leftarrow>[0..<dim s]. d_db s ! (l + r * dim s) * dq ! (l + qi * dim s)) =
      (\<Sum>(a, b)\<leftarrow>zip (db_row s r) (queries ! qi). a * b)" .
  have "list_all (\<lambda>r. d_db_norms s ! r = sum_sq (db_row s r)) [0..<current_count s]"
    using inv ccs dsmall by (simp add: GpuIndex_inv_def cc_def)
  then have xn: "d_db_norms s ! r = (\<Sum>v\<leftarrow>db_row s r. v * v)"
    using r by (simp add: list_all_iff cc_def sum_sq_sum_list)
  have "0 + length (map sum_sq queries) \<le> length (d_q_norms s)"
    using inv nq by (simp add: GpuIndex_inv_def)
  then have "dqn ! (0 + qi) = map sum_sq queries ! qi"
    unfolding dqn_def using qi by (intro cudaMemcpy_nth_in) simp_all
  then have qn: "dqn ! qi = (\<Sum>v\<leftarrow>queries ! qi. v * v)"
    using qi by (simp add: sum_sq_sum_list)
  show ?thesis using r by (simp add: id score dot xn qn cc_def)
qed

theorem search_score_identity_witness:
  "GpuIndex_inv gpu3 \<and> 0 < dim gpu3 \<and> dim gpu3 \<le> INT_MAX \<and>
   length [1, 0, 0, 0 :: real] = dim gpu3 \<and>
   length [[1, 0, 0, 0 :: real]] \<le> max_batch_size gpu3 \<and>
   (\<exists>res s'. search gpu3 [[1, 0, 0, 0]] 3 = Inr (res, s') \<and>
      \<lparr>result_id = 2, score = 1\<rparr> \<in> set (res ! 0) \<and>
      db_row gpu3 2 = [1, 1, 0, 0] \<and>
      (1 :: real) = (\<Sum>v\<leftarrow>db_row gpu3 2. v * v) + (\<Sum>v\<leftarrow>[1, 0, 0, 0]. v * v)
        - 2 * (\<Sum>(a, b)\<leftarrow>zip (db_row gpu3 2) [1, 0, 0, 0]. a * b))"
proof -
  have a: "0 < dim gpu3" "dim gpu3 \<le> INT_MAX"
    "\<forall>q \<in> set [[1, 0, 0, 0 :: real]]. length q = dim gpu3"
    "length [[1, 0, 0, 0 :: real]] \<le> max_batch_size gpu3" "(0 :: nat) < length [[1, 0, 0, 0 :: real]]"
    by (simp_all add: gpu3_fields INT_MAX_def)
  obtain res s' where sr: "search gpu3 [[1, 0, 0, 0]] 3 = Inr (res, s')"
    and res: "res = [[\<lparr>result_id = 0, score = 0\<rparr>, \<lparr>result_id = 2, score = 1\<rparr>,
              \<lparr>result_id = 1, score = 2\<rparr>]]"
    using gpu3_scenario by blast
  have e: "\<lparr>result_id = 2, score = 1\<rparr> \<in> set (res ! 0)" by (simp add: res)
  have row: "db_row gpu3 2 = [1, 1, 0, 0]" by (simp add: db_row_def gpu3_def)
  from search_score_identity [OF gpu3_inv a(1,2,3,4) sr a(5) e]
  have "(1 :: real) = (\<Sum>v\<leftarrow>db_row gpu3 2. v * v) + (\<Sum>v\<leftarrow>[1, 0, 0, 0]. v * v)
        - 2 * (\<Sum>(a, b)\<leftarrow>zip (db_row gpu3 2) [1, 0, 0, 0]. a * b)"
    by simp
  with gpu3_inv a sr e row show ?thesis by auto
qed

text \<open>
  Claim C5 as stated fails for the dimension 0. An index constructed with dimension 0
  and capacity 1, in device memory that holds the value 7, takes one (empty) row. The
  product is then refused (\<open>lda = 0\<close>) and \<open>d_results\<close> keeps what it held; the kernel
  adds the two norms to it. \<open>search\<close> with the one empty query reports row 0 with the
  score 7, and \<open>|x|^2 + |q|^2 - 2 x.q\<close> is 0.
\<close>

theorem search_score_stale_without_components:
  "add_single_vector (GpuIndex_ctor (\<lambda>i. 7) 0 1) [] = Inr (True, gpu_dim0_row) \<and>
   GpuIndex_reachable gpu_dim0_row \<and> dim gpu_dim0_row = 0 \<and> db_row gpu_dim0_row 0 = [] \<and>
   (\<exists>s'. search gpu_dim0_row [[]] 1 = Inr ([[\<lparr>result_id = 0, score = 7\<rparr>]], s')) \<and>
   (\<Sum>v\<leftarrow>db_row gpu_dim0_row 0. v * v) + (\<Sum>v\<leftarrow>[]. v * v)
     - 2 * (\<Sum>(a, b)\<leftarrow>zip (db_row gpu_dim0_row 0) []. a * b) = (0 :: real)"
proof -
  have row: "db_row gpu_dim0_row 0 = []" by (simp add: db_row_def gpu_dim0_row_fields)
  show ?thesis
    using gpu_dim0_row_added gpu_dim0_row_reachable gpu_dim0_row_scenario
    by (simp add: row gpu_dim0_row_fields gpu_dim0_def)
qed

subsection \<open>The batch size\<close>




end
